theory Spec2Isabelle
  imports Complex_Main "HOL-Library.Multiset"
begin

section \<open>Values of the browser platform\<close>

text \<open>
  A JavaScript \<open>number\<close> is a double; its value is written as a rational. Pixel sizes
  that the platform hands out (\<open>img.width\<close>, \<open>video.videoHeight\<close>) are unsigned 32-bit
  integers, and the configured resolution is the integer that \<open>parseInt\<close> reads from one
  of the options 1080, 720, 480, 360 (default 720), so all three are naturals, and as
  doubles they are exact. A literal such as \<open>0.7\<close> is written as the decimal it denotes.
\<close>

type_synonym number = rat

text \<open>
  The quotient and the product of two doubles are the exact results rounded to the
  nearest double, a tie going to the even significand. \<open>ilog2 n\<close> is the position of
  the leading bit of \<open>n\<close>; \<open>exponent x\<close> is the \<open>e\<close> with \<open>2 ^ e \<le> x < 2 ^ (e + 1)\<close> for a
  positive \<open>x\<close>; \<open>fl x\<close> rounds \<open>x\<close> to 53 significant bits. Overflow and subnormal
  results are not modelled: with 32-bit sizes the quotients and products of the two
  tools lie between \<open>2 ^ -32\<close> and \<open>2 ^ 64\<close>, or are zero.
\<close>

fun ilog2 :: "nat \<Rightarrow> nat" where
  "ilog2 n = (if n < 2 then 0 else Suc (ilog2 (n div 2)))"

declare ilog2.simps [simp del]

definition exponent :: "rat \<Rightarrow> int" where
  "exponent x =
     (if 1 \<le> x then int (ilog2 (nat \<lfloor>x\<rfloor>))
      else (let k = ilog2 (nat \<lfloor>1 / x\<rfloor>)
            in if x * 2 ^ k = 1 then - int k else - int k - 1))"

definition round_even :: "rat \<Rightarrow> int" where
  "round_even y =
     (let n = \<lfloor>y\<rfloor>; d = y - of_int n
      in if d < 1 / 2 then n else if 1 / 2 < d then n + 1 else if even n then n else n + 1)"

definition fl :: "rat \<Rightarrow> number" where
  "fl x = (if x = 0 then 0
           else (let u = 2 powi (exponent \<bar>x\<bar> - 52)
                 in sgn x * of_int (round_even (\<bar>x\<bar> / u)) * u))"

definition fdiv :: "number \<Rightarrow> number \<Rightarrow> number" where
  "fdiv a b = fl (a / b)"

definition fmul :: "number \<Rightarrow> number \<Rightarrow> number" where
  "fmul a b = fl (a * b)"

definition Math_round :: "number \<Rightarrow> int" where
  \<comment> \<open>\<open>Math.round\<close>: the nearest integer, a tie going up.\<close>
  "Math_round x = \<lfloor>x + 1 / 2\<rfloor>"

text \<open>
  Assigning a number to \<open>canvas.width\<close> or \<open>canvas.height\<close>: the conversion to
  \<open>unsigned long\<close> drops the fraction and reduces modulo \<open>2 ^ 32\<close>; a value above
  \<open>2 ^ 31 - 1\<close> is replaced by the attribute's default (300 for the width, 150 for the
  height).
\<close>

definition canvas_dimension :: "nat \<Rightarrow> number \<Rightarrow> nat" where
  "canvas_dimension dflt x =
     (let n = (if x < 0 then \<lceil>x\<rceil> else \<lfloor>x\<rfloor>) mod 2 ^ 32
      in if n \<le> 2147483647 then nat n else dflt)"

type_synonym Blob = "nat list"
  \<comment> \<open>the bytes; \<open>blob.size\<close> is their number\<close>

record File =
  name :: string
  lastModified :: nat
  content :: "nat list"

datatype format = jpeg | png

datatype error = ReaderError | ImageLoadError | NoCanvasContext | ToBlobFailed

text \<open>What \<open>drawImage\<close> is given: a decoded image, or the video at its current time.\<close>

datatype source = ImageSource string | VideoFrame number

datatype draw_op =
    FillRect string number number number number
  | DrawImage source number number number number

text \<open>
  A canvas keeps the two numbers the code assigns to \<open>canvas.width\<close> and
  \<open>canvas.height\<close>, the size in pixels that its bitmap takes from them, and the
  drawing calls in the order they were made.
\<close>

record canvas =
  cwidth :: number
  cheight :: number
  bitmapWidth :: nat
  bitmapHeight :: nat
  ops :: "draw_op list"

record toBlob_call =
  tb_canvas :: canvas
  tb_mimeType :: string
  tb_quality :: "number option"

record resized =
  blob :: Blob
  width :: int
  height :: int

record video =
  videoWidth :: nat
  videoHeight :: nat
  currentTime :: number

text \<open>
  An archive of JSZip is its table \<open>files\<close>, kept here as the list of its entries in
  the order of their insertion; an entry is a folder or a file with its data.
\<close>

datatype zip_object = Folder | FileData Blob

type_synonym zip_files = "(string \<times> zip_object) list"

text \<open>
  The platform: each field answers one asynchronous or fallible call, \<open>None\<close> standing
  for the error callback (\<open>reader.onerror\<close>, \<open>img.onerror\<close>, a null blob) and
  \<open>False\<close> for a null drawing context.
\<close>

record env =
  readAsDataURL :: "File \<Rightarrow> string option"
  loadImage :: "string \<Rightarrow> (nat \<times> nat) option"
  getContext :: "number \<Rightarrow> number \<Rightarrow> bool"
  toBlob :: "toBlob_call \<Rightarrow> Blob option"
  createObjectURL :: "Blob \<Rightarrow> string"
  newFrameId :: "number \<Rightarrow> nat \<Rightarrow> string"
  generateAsync :: "zip_files \<Rightarrow> Blob option"

section \<open>Resampling and encoding\<close>

text \<open>
  The body shared, statement for statement, by \<open>img.onload\<close> inside \<open>resizeImage\<close>
  and by \<open>extractFrame\<close>: cap the height, size the canvas, ask for the context, fill
  white for JPEG, draw, choose the MIME type and the quality, and call \<open>toBlob\<close>. The
  result is the call made and the two numbers the callback will round.
\<close>

definition capture ::
  "env \<Rightarrow> source \<Rightarrow> nat \<Rightarrow> nat \<Rightarrow> nat \<Rightarrow> format \<Rightarrow> bool
     \<Rightarrow> error + toBlob_call \<times> number \<times> number" where
  "capture e src naturalWidth naturalHeight maxHeight fmt enableCompression =
    (let (w, h) =
           (if naturalHeight > maxHeight
            then (let ratio = fdiv (of_nat maxHeight) (of_nat naturalHeight)
                  in (fmul (of_nat naturalWidth) ratio, of_nat maxHeight))
            else (of_nat naturalWidth, of_nat naturalHeight));
         c0 = \<lparr>cwidth = w, cheight = h, bitmapWidth = canvas_dimension 300 w,
               bitmapHeight = canvas_dimension 150 h, ops = []\<rparr>
     in if \<not> getContext e w h then Inl NoCanvasContext
        else
          (let c1 = (if fmt = jpeg
                     then c0\<lparr>ops := ops c0 @ [FillRect ''#FFFFFF'' 0 0 w h]\<rparr>
                     else c0);
               c2 = c1\<lparr>ops := ops c1 @ [DrawImage src 0 0 w h]\<rparr>;
               mimeType = (if fmt = jpeg then ''image/jpeg'' else ''image/png'');
               quality = (if mimeType = ''image/jpeg''
                          then Some (if enableCompression then 7 / 10 else 1)
                          else None)
           in Inr (\<lparr>tb_canvas = c2, tb_mimeType = mimeType, tb_quality = quality\<rparr>, w, h)))"

definition toBlob_callback :: "env \<Rightarrow> toBlob_call \<times> number \<times> number \<Rightarrow> error + resized" where
  "toBlob_callback e r =
    (case r of (call, w, h) \<Rightarrow>
       (case toBlob e call of
          Some b \<Rightarrow> Inr \<lparr>blob = b, width = Math_round w, height = Math_round h\<rparr>
        | None \<Rightarrow> Inl ToBlobFailed))"

definition resizeImage :: "env \<Rightarrow> File \<Rightarrow> nat \<Rightarrow> format \<Rightarrow> bool \<Rightarrow> error + resized" where
  "resizeImage e file maxHeight fmt enableCompression =
    (case readAsDataURL e file of
       None \<Rightarrow> Inl ReaderError
     | Some url \<Rightarrow>
         (case loadImage e url of
            None \<Rightarrow> Inl ImageLoadError
          | Some (w, h) \<Rightarrow>
              (case capture e (ImageSource url) w h maxHeight fmt enableCompression of
                 Inl err \<Rightarrow> Inl err
               | Inr r \<Rightarrow> toBlob_callback e r)))"

definition extractFrame :: "env \<Rightarrow> video \<Rightarrow> nat \<Rightarrow> format \<Rightarrow> bool \<Rightarrow> error + resized" where
  "extractFrame e v maxHeight fmt enableCompression =
    (case capture e (VideoFrame (currentTime v)) (videoWidth v) (videoHeight v)
            maxHeight fmt enableCompression of
       Inl err \<Rightarrow> Inl err
     | Inr r \<Rightarrow> toBlob_callback e r)"

section \<open>Strings\<close>

text \<open>
  Strings are lists of code units (those that fit a \<open>char\<close>). \<open>trim\<close> removes the
  white space and line terminators of that range from both ends.
\<close>

definition isWhiteSpace :: "char \<Rightarrow> bool" where
  "isWhiteSpace c = (List.member
     [CHR 0x09, CHR 0x0A, CHR 0x0B, CHR 0x0C, CHR 0x0D, CHR 0x20, CHR 0xA0] c)"

definition trim :: "string \<Rightarrow> string" where
  "trim s = rev (dropWhile isWhiteSpace (rev (dropWhile isWhiteSpace s)))"

text \<open>
  \<open>s.replace(/\.[^/.]+$/, "")\<close>: \<open>ext_match\<close> says that the pattern matches the whole
  of the given suffix (a dot, then one or more characters that are neither a slash nor a
  dot, to the end); \<open>replace_ext\<close> deletes the leftmost match.
\<close>

fun ext_match :: "string \<Rightarrow> bool" where
  "ext_match [] = False"
| "ext_match (c # cs) =
     (c = CHR ''.'' \<and> cs \<noteq> [] \<and> list_all (\<lambda>d. d \<noteq> CHR ''/'' \<and> d \<noteq> CHR ''.'') cs)"

fun replace_ext :: "string \<Rightarrow> string" where
  "replace_ext [] = []"
| "replace_ext (c # cs) = (if ext_match (c # cs) then [] else c # replace_ext cs)"

definition digit_char :: "nat \<Rightarrow> char" where
  "digit_char d = ''0123456789'' ! d"

text \<open>The decimal digits of a natural number, as a template literal prints it.\<close>

fun toString :: "nat \<Rightarrow> string" where
  "toString n = (if n < 10 then [digit_char n] else toString (n div 10) @ [digit_char (n mod 10)])"

declare toString.simps [simp del]

definition newExtension :: "format \<Rightarrow> string" where
  "newExtension fmt = (if fmt = jpeg then ''.jpg'' else ''.png'')"

section \<open>The image resizer\<close>

record ResizerFile =
  id_ :: string
  originalFile :: File
  previewUrl :: string
  displayName :: string
  originalWidth :: "nat option"
  originalHeight :: "nat option"
  originalSize :: "nat option"
  processedBlob :: "Blob option"
  processedWidth :: "int option"
  processedHeight :: "int option"
  processedSize :: "nat option"

record BatchImageResizerState =
  files :: "ResizerFile list"
  newName :: string
  resolution :: nat
  outputFormat :: format
  compression :: bool
  isProcessing :: bool

definition defaultResizerState :: BatchImageResizerState where
  "defaultResizerState =
     \<lparr>files = [], newName = [], resolution = 720, outputFormat = jpeg,
      compression = True, isProcessing = False\<rparr>"

text \<open>
  \<open>Partial<BatchImageResizerState>\<close>, the argument of \<open>onChangeState\<close>: a field that is
  \<open>None\<close> is absent from the object.
\<close>

record Partial_Resizer =
  set_files :: "ResizerFile list option"
  set_newName :: "string option"
  set_resolution :: "nat option"
  set_outputFormat :: "format option"
  set_compression :: "bool option"
  set_isProcessing :: "bool option"

definition no_change :: Partial_Resizer where
  "no_change = \<lparr>set_files = None, set_newName = None, set_resolution = None,
     set_outputFormat = None, set_compression = None, set_isProcessing = None\<rparr>"

text \<open>\<open>updateToolState\<close>: the fields present in the new object replace the stored ones.\<close>

definition updateToolState :: "BatchImageResizerState \<Rightarrow> Partial_Resizer \<Rightarrow> BatchImageResizerState" where
  "updateToolState existingState newState =
     \<lparr>files = (case set_files newState of Some x \<Rightarrow> x | None \<Rightarrow> files existingState),
      newName = (case set_newName newState of Some x \<Rightarrow> x | None \<Rightarrow> newName existingState),
      resolution = (case set_resolution newState of Some x \<Rightarrow> x | None \<Rightarrow> resolution existingState),
      outputFormat = (case set_outputFormat newState of Some x \<Rightarrow> x | None \<Rightarrow> outputFormat existingState),
      compression = (case set_compression newState of Some x \<Rightarrow> x | None \<Rightarrow> compression existingState),
      isProcessing = (case set_isProcessing newState of Some x \<Rightarrow> x | None \<Rightarrow> isProcessing existingState)\<rparr>"

text \<open>
  What a handler does to the outside, in order: a call of \<open>onChangeState\<close>, a line on
  the error console, a seek of the video, the release of an object URL, a download.
\<close>

datatype 'p event =
    ChangeState 'p
  | ConsoleError string error
  | ConsoleErrorAt number error
  | ConsoleErrorDownload
  | Seek number
  | RevokeObjectURL string
  | Download string Blob

text \<open>The assignment to \<open>updatedFiles[i]\<close> inside the \<open>try\<close> block.\<close>

definition processedFile ::
  "BatchImageResizerState \<Rightarrow> nat \<Rightarrow> ResizerFile \<Rightarrow> resized \<Rightarrow> ResizerFile" where
  "processedFile st i file r =
     (let baseName = (if trim (newName st) \<noteq> []
                      then trim (newName st) @ ''-'' @ toString (i + 1)
                      else replace_ext (displayName file));
          newDisplayName = baseName @ newExtension (outputFormat st)
      in file\<lparr>processedBlob := Some (blob r),
              processedWidth := Some (width r),
              processedHeight := Some (height r),
              processedSize := Some (length (blob r)),
              displayName := newDisplayName\<rparr>)"

function processLoop ::
  "env \<Rightarrow> BatchImageResizerState \<Rightarrow> nat \<Rightarrow> ResizerFile list \<Rightarrow> Partial_Resizer event list" where
  "processLoop e st i updatedFiles =
     (if i < length updatedFiles
      then (let file = updatedFiles ! i
            in case resizeImage e (originalFile file) (resolution st) (outputFormat st)
                      (compression st) of
                 Inr r \<Rightarrow>
                   (let updatedFiles' = updatedFiles[i := processedFile st i file r]
                    in ChangeState (no_change\<lparr>set_files := Some updatedFiles'\<rparr>)
                         # processLoop e st (i + 1) updatedFiles')
               | Inl err \<Rightarrow>
                   ConsoleError (''Failed to process '' @ displayName file) err
                     # processLoop e st (i + 1) updatedFiles)
      else [])"
  by pat_completeness auto
termination
  by (relation "measure (\<lambda>(e, st, i, updatedFiles). length updatedFiles - i)") auto

declare processLoop.simps [simp del]

definition handleProcess :: "env \<Rightarrow> BatchImageResizerState \<Rightarrow> Partial_Resizer event list" where
  "handleProcess e st =
     (if length (files st) = 0 then []
      else ChangeState (no_change\<lparr>set_isProcessing := Some True\<rparr>)
             # processLoop e st 0 (files st)
             @ [ChangeState (no_change\<lparr>set_isProcessing := Some False\<rparr>)])"

text \<open>The state after the calls of \<open>onChangeState\<close> among the events, taken in order.\<close>

fun applyEvent :: "BatchImageResizerState \<Rightarrow> Partial_Resizer event \<Rightarrow> BatchImageResizerState" where
  "applyEvent st (ChangeState p) = updateToolState st p"
| "applyEvent st _ = st"

definition run :: "BatchImageResizerState \<Rightarrow> Partial_Resizer event list \<Rightarrow> BatchImageResizerState" where
  "run st evs = foldl applyEvent st evs"

text \<open>
  JSZip 3, with its default options (\<open>createFolders\<close> is true, the root is empty).
  \<open>put\<close> is the assignment \<open>this.files[name] = object\<close>: it replaces the entry of that
  name and appends a new entry otherwise.
\<close>

fun put :: "string \<Rightarrow> zip_object \<Rightarrow> zip_files \<Rightarrow> zip_files" where
  "put n obj [] = [(n, obj)]"
| "put n obj ((n', obj') # zs) = (if n' = n then (n, obj) # zs else (n', obj') # put n obj zs)"

definition forceTrailingSlash :: "string \<Rightarrow> string" where
  "forceTrailingSlash path = (if path \<noteq> [] \<and> last path = CHR ''/'' then path else path @ ''/'')"

definition lastIndexOf :: "char \<Rightarrow> string \<Rightarrow> int" where
  "lastIndexOf c s =
     (if c \<in> set s then int (length s) - 1 - int (length (takeWhile (\<lambda>d. d \<noteq> c) (rev s)))
      else - 1)"

definition parentFolder :: "string \<Rightarrow> string" where
  "parentFolder path =
     (let path' = (if path \<noteq> [] \<and> last path = CHR ''/'' then butlast path else path);
          lastSlash = lastIndexOf CHR ''/'' path'
      in if lastSlash > 0 then take (nat lastSlash) path' else [])"

text \<open>
  The folders above a path: its parent folder, the parent of that folder, and so on.
\<close>

function folders :: "string \<Rightarrow> string list" where
  "folders path =
     (let parent = parentFolder path
      in if parent = [] then [] else forceTrailingSlash parent # folders (forceTrailingSlash parent))"
  by pat_completeness auto
termination
proof (relation "measure length", goal_cases)
  case 1
  show ?case by simp
next
  case (2 x xa)
  define q where "q = (if x \<noteq> [] \<and> last x = CHR ''/'' then butlast x else x)"
  define i where "i = lastIndexOf CHR ''/'' q"
  from 2 have i: "0 < i" and par: "xa = take (nat i) q"
    by (auto simp: parentFolder_def Let_def q_def i_def split: if_splits)
  from i have mem: "CHR ''/'' \<in> set q" by (auto simp: i_def lastIndexOf_def split: if_splits)
  from i have il: "nat i < length q" by (simp add: i_def lastIndexOf_def split: if_splits)
  have top: "last q = CHR ''/''" if "nat i = length q - 1"
  proof -
    define k where "k = length (takeWhile (\<lambda>d. d \<noteq> CHR ''/'') (rev q))"
    from i mem have "i = int (length q) - 1 - int k" by (simp add: i_def lastIndexOf_def k_def)
    with that i have "k = 0" by linarith
    then have "takeWhile (\<lambda>d. d \<noteq> CHR ''/'') (rev q) = []" by (simp add: k_def)
    with mem show ?thesis by (cases "rev q") (auto simp: last_rev [symmetric] split: if_splits)
  qed
  have len: "length (forceTrailingSlash xa) \<le> nat i + 1"
    using il by (simp add: par forceTrailingSlash_def)
  have "length (forceTrailingSlash xa) < length x"
  proof (cases "x \<noteq> [] \<and> last x = CHR ''/''")
    case True
    then have "length q = length x - 1" "0 < length x" by (simp_all add: q_def)
    with il len show ?thesis by simp
  next
    case False
    then have q: "q = x" by (auto simp: q_def)
    with il False have "last q \<noteq> CHR ''/''" by auto
    with top have "nat i \<noteq> length q - 1" by auto
    with il q len show ?thesis by simp
  qed
  then show ?case by simp
qed

declare folders.simps [simp del]

text \<open>
  \<open>fileAdd\<close> first adds the parent folder of the name, then stores the object; data
  that is missing gives an empty file. \<open>folderAdd\<close> adds a folder entry unless an entry
  of that name is there. \<open>zip.file(name, data)\<close> is \<open>fileAdd\<close> without options.
  The parameters \<open>fname\<close> and \<open>zfiles\<close> are JSZip's \<open>name\<close> and \<open>this.files\<close>,
  and \<open>dir\<close> is the option \<open>o.dir\<close>.
\<close>

function fileAdd :: "string \<Rightarrow> Blob option \<Rightarrow> bool \<Rightarrow> zip_files \<Rightarrow> zip_files"
  and folderAdd :: "string \<Rightarrow> zip_files \<Rightarrow> zip_files" where
  "fileAdd fname data dir zfiles =
     (let fname' = (if dir then forceTrailingSlash fname else fname);
          parent = parentFolder fname';
          zfiles' = (if parent \<noteq> [] then folderAdd parent zfiles else zfiles);
          object = (if dir then Folder
                    else FileData (case data of Some b \<Rightarrow> b | None \<Rightarrow> []))
      in put fname' object zfiles')"
| "folderAdd fname zfiles =
     (let fname' = forceTrailingSlash fname
      in if map_of zfiles fname' = None then fileAdd fname' None True zfiles else zfiles)"
  by pat_completeness auto
termination
proof (relation "measure (\<lambda>x. case x of
          Inl (fname, data, dir, zfiles) \<Rightarrow>
            2 * length (folders (if dir then forceTrailingSlash fname else fname)) + 1
        | Inr (fname, zfiles) \<Rightarrow> 2 * length (folders (forceTrailingSlash fname)) + 2)", goal_cases)
  case 1
  show ?case by simp
next
  case (2 fname data dir zfiles x xa)
  then have "folders x = forceTrailingSlash xa # folders (forceTrailingSlash xa)"
    by (subst folders.simps) (simp add: Let_def)
  then have "length (folders (forceTrailingSlash xa)) < length (folders x)" by simp
  with 2 show ?case by auto
next
  case (3 fname zfiles x)
  then show ?case by (simp add: forceTrailingSlash_def)
qed

declare fileAdd.simps [simp del] folderAdd.simps [simp del]

definition zip_file :: "string \<Rightarrow> Blob option \<Rightarrow> zip_files \<Rightarrow> zip_files" where
  "zip_file fname data zfiles = fileAdd fname data False zfiles"

definition zipEntries :: "ResizerFile list \<Rightarrow> zip_files" where
  "zipEntries processedFiles =
     foldl (\<lambda>zip file. zip_file (displayName file) (processedBlob file) zip) [] processedFiles"

definition handleDownload :: "env \<Rightarrow> BatchImageResizerState \<Rightarrow> Partial_Resizer event list" where
  "handleDownload e st =
     (let processedFiles = filter (\<lambda>f. processedBlob f \<noteq> None) (files st)
      in if length processedFiles = 0 then []
         else (case generateAsync e (zipEntries processedFiles) of
                 None \<Rightarrow> [ConsoleErrorDownload]
               | Some zipBlob \<Rightarrow>
                   (let baseName = (if trim (newName st) \<noteq> [] then trim (newName st)
                                    else ''resized-images'');
                        zipFileName = baseName @ ''(1-'' @ toString (length processedFiles)
                                        @ '').zip''
                    in [Download zipFileName zipBlob])))"

text \<open>
  \<open>Array.prototype.splice\<close> at an index that is not negative: \<open>splice(start, 1)\<close>
  gives the removed elements and what is left, \<open>splice(start, 0, x)\<close> inserts. An
  array slot is \<open>Some\<close> item or \<open>None\<close> for \<open>undefined\<close>, which is what
  \<open>splice(start, 1)[0]\<close> is when nothing was removed.
\<close>

definition splice_delete1 :: "nat \<Rightarrow> 'a list \<Rightarrow> 'a list \<times> 'a list" where
  "splice_delete1 start xs = (take 1 (drop start xs), take start xs @ drop (start + 1) xs)"

definition splice_insert :: "nat \<Rightarrow> 'a \<Rightarrow> 'a list \<Rightarrow> 'a list" where
  "splice_insert start x xs = take start xs @ [x] @ drop start xs"

definition dragSort :: "nat option \<Rightarrow> nat option \<Rightarrow> 'a list \<Rightarrow> 'a option list option" where
  "dragSort draggedItemIndex dragOverItemIndex items =
     (case (draggedItemIndex, dragOverItemIndex) of
        (Some d, Some t) \<Rightarrow>
          (let (removed, rest) = splice_delete1 d (map Some items);
               draggedItemContent = (case removed of [] \<Rightarrow> None | x # _ \<Rightarrow> x)
           in Some (splice_insert t draggedItemContent rest))
      | _ \<Rightarrow> None)"

text \<open>
  \<open>handleDragSort\<close> of the resizer: \<open>None\<close> when it returns at once, otherwise the
  array it passes to \<open>onChangeState\<close> under \<open>files\<close>.
\<close>

definition handleDragSort ::
  "nat option \<Rightarrow> nat option \<Rightarrow> BatchImageResizerState \<Rightarrow> ResizerFile option list option" where
  "handleDragSort draggedItemIndex dragOverItemIndex st =
     dragSort draggedItemIndex dragOverItemIndex (files st)"

section \<open>The video frame extractor\<close>

record ExtractedFrame =
  idF :: string
  timestamp :: number
  previewUrlF :: string
  processedBlobF :: "Blob option"
  processedWidthF :: "int option"
  processedHeightF :: "int option"
  processedSizeF :: "nat option"
  displayNameF :: string

record VideoFrameExtractorState =
  videoFile :: "File option"
  videoUrl :: "string option"
  videoDuration :: number
  markers :: "number list"
  extractedFrames :: "ExtractedFrame list"
  newNameV :: string
  resolutionV :: nat
  outputFormatV :: format
  compressionV :: bool
  isProcessingV :: bool
  isPreviewCollapsed :: bool

definition defaultExtractorState :: VideoFrameExtractorState where
  "defaultExtractorState =
     \<lparr>videoFile = None, videoUrl = None, videoDuration = 0, markers = [],
      extractedFrames = [], newNameV = [], resolutionV = 720, outputFormatV = jpeg,
      compressionV = True, isProcessingV = False, isPreviewCollapsed = False\<rparr>"

record Partial_Extractor =
  set_videoFile :: "File option option"
  set_videoUrl :: "string option option"
  set_videoDuration :: "number option"
  set_markers :: "number list option"
  set_extractedFrames :: "ExtractedFrame list option"
  set_newNameV :: "string option"
  set_resolutionV :: "nat option"
  set_outputFormatV :: "format option"
  set_compressionV :: "bool option"
  set_isProcessingV :: "bool option"
  set_isPreviewCollapsed :: "bool option"

definition no_changeV :: Partial_Extractor where
  "no_changeV = \<lparr>set_videoFile = None, set_videoUrl = None, set_videoDuration = None,
     set_markers = None, set_extractedFrames = None, set_newNameV = None,
     set_resolutionV = None, set_outputFormatV = None, set_compressionV = None,
     set_isProcessingV = None, set_isPreviewCollapsed = None\<rparr>"

definition updateToolStateV ::
  "VideoFrameExtractorState \<Rightarrow> Partial_Extractor \<Rightarrow> VideoFrameExtractorState" where
  "updateToolStateV existingState newState =
     \<lparr>videoFile = (case set_videoFile newState of Some x \<Rightarrow> x | None \<Rightarrow> videoFile existingState),
      videoUrl = (case set_videoUrl newState of Some x \<Rightarrow> x | None \<Rightarrow> videoUrl existingState),
      videoDuration = (case set_videoDuration newState of Some x \<Rightarrow> x | None \<Rightarrow> videoDuration existingState),
      markers = (case set_markers newState of Some x \<Rightarrow> x | None \<Rightarrow> markers existingState),
      extractedFrames = (case set_extractedFrames newState of Some x \<Rightarrow> x | None \<Rightarrow> extractedFrames existingState),
      newNameV = (case set_newNameV newState of Some x \<Rightarrow> x | None \<Rightarrow> newNameV existingState),
      resolutionV = (case set_resolutionV newState of Some x \<Rightarrow> x | None \<Rightarrow> resolutionV existingState),
      outputFormatV = (case set_outputFormatV newState of Some x \<Rightarrow> x | None \<Rightarrow> outputFormatV existingState),
      compressionV = (case set_compressionV newState of Some x \<Rightarrow> x | None \<Rightarrow> compressionV existingState),
      isProcessingV = (case set_isProcessingV newState of Some x \<Rightarrow> x | None \<Rightarrow> isProcessingV existingState),
      isPreviewCollapsed = (case set_isPreviewCollapsed newState of Some x \<Rightarrow> x | None \<Rightarrow> isPreviewCollapsed existingState)\<rparr>"

text \<open>
  \<open>handleReset\<close> passes every field of the default state; the object URLs of the old
  frames are revoked first.
\<close>

definition resetPatch :: Partial_Extractor where
  "resetPatch =
     \<lparr>set_videoFile = Some (videoFile defaultExtractorState),
      set_videoUrl = Some (videoUrl defaultExtractorState),
      set_videoDuration = Some (videoDuration defaultExtractorState),
      set_markers = Some (markers defaultExtractorState),
      set_extractedFrames = Some (extractedFrames defaultExtractorState),
      set_newNameV = Some (newNameV defaultExtractorState),
      set_resolutionV = Some (resolutionV defaultExtractorState),
      set_outputFormatV = Some (outputFormatV defaultExtractorState),
      set_compressionV = Some (compressionV defaultExtractorState),
      set_isProcessingV = Some (isProcessingV defaultExtractorState),
      set_isPreviewCollapsed = Some (isPreviewCollapsed defaultExtractorState)\<rparr>"

definition handleReset :: "VideoFrameExtractorState \<Rightarrow> Partial_Extractor event list" where
  "handleReset st =
     map (\<lambda>frame. RevokeObjectURL (previewUrlF frame)) (extractedFrames st)
       @ [ChangeState resetPatch]"

text \<open>
  \<open>handleAddMarker\<close> and \<open>handleRemoveMarker\<close>: the object passed to \<open>onChangeState\<close>,
  or \<open>None\<close> when the handler returns before calling it. The comparator
  \<open>(a, b) => a - b\<close> orders numbers ascending.
\<close>

definition handleAddMarker :: "number \<Rightarrow> VideoFrameExtractorState \<Rightarrow> Partial_Extractor option" where
  "handleAddMarker currentTime' st =
     (if List.member (markers st) currentTime' then None
      else Some (no_changeV\<lparr>set_markers := Some (sort (markers st @ [currentTime']))\<rparr>))"

definition handleRemoveMarker :: "number \<Rightarrow> VideoFrameExtractorState \<Rightarrow> Partial_Extractor" where
  "handleRemoveMarker timestamp' st =
     no_changeV\<lparr>set_markers := Some (filter (\<lambda>m. m \<noteq> timestamp') (markers st))\<rparr>"

text \<open>
  The \<open>video\<close> element is rendered, and \<open>videoRef.current\<close> set, exactly when
  \<open>videoUrl\<close> is a non-empty string and the preview is not collapsed.
\<close>

definition videoRef_current :: "VideoFrameExtractorState \<Rightarrow> video \<Rightarrow> video option" where
  "videoRef_current st element =
     (if videoUrl st \<noteq> None \<and> videoUrl st \<noteq> Some [] \<and> \<not> isPreviewCollapsed st
      then Some element else None)"

definition newFrame ::
  "env \<Rightarrow> VideoFrameExtractorState \<Rightarrow> nat \<Rightarrow> number \<Rightarrow> resized \<Rightarrow> ExtractedFrame" where
  "newFrame e st i ts r =
     (let baseName = (if trim (newNameV st) \<noteq> []
                      then trim (newNameV st) @ ''-'' @ toString (i + 1)
                      else ''frame-'' @ toString (i + 1));
          newDisplayName = baseName @ newExtension (outputFormatV st)
      in \<lparr>idF = newFrameId e ts i,
          timestamp = ts,
          previewUrlF = createObjectURL e (blob r),
          processedBlobF = Some (blob r),
          processedWidthF = Some (width r),
          processedHeightF = Some (height r),
          processedSizeF = Some (length (blob r)),
          displayNameF = newDisplayName\<rparr>)"

text \<open>
  The loop over \<open>markers.entries()\<close>: seek, wait for \<open>seeked\<close>, extract; \<open>i\<close> is the
  index of the marker at the head of the list still to visit. The result is the frames
  pushed and the events, in order.
\<close>

fun extractLoop ::
  "env \<Rightarrow> VideoFrameExtractorState \<Rightarrow> video \<Rightarrow> nat \<Rightarrow> number list \<Rightarrow> ExtractedFrame list
     \<Rightarrow> ExtractedFrame list \<times> Partial_Extractor event list" where
  "extractLoop e st v i [] newFrames = (newFrames, [])"
| "extractLoop e st v i (ts # rest) newFrames =
     (let v' = v\<lparr>currentTime := ts\<rparr>
      in case extractFrame e v' (resolutionV st) (outputFormatV st) (compressionV st) of
           Inr r \<Rightarrow>
             (let (frames, evs) = extractLoop e st v' (i + 1) rest (newFrames @ [newFrame e st i ts r])
              in (frames, Seek ts # evs))
         | Inl err \<Rightarrow>
             (let (frames, evs) = extractLoop e st v' (i + 1) rest newFrames
              in (frames, Seek ts # ConsoleErrorAt ts err # evs)))"

definition handleProcessV ::
  "env \<Rightarrow> VideoFrameExtractorState \<Rightarrow> video \<Rightarrow> Partial_Extractor event list" where
  "handleProcessV e st element =
     (case videoRef_current st element of
        None \<Rightarrow> []
      | Some v \<Rightarrow>
          if length (markers st) = 0 then []
          else (let (newFrames, evs) = extractLoop e st v 0 (markers st) []
                in ChangeState (no_changeV\<lparr>set_isProcessingV := Some True\<rparr>)
                     # evs
                     @ map (\<lambda>frame. RevokeObjectURL (previewUrlF frame)) (extractedFrames st)
                     @ [ChangeState (no_changeV\<lparr>set_extractedFrames := Some newFrames,
                                                 set_isProcessingV := Some False,
                                                 set_isPreviewCollapsed := Some True\<rparr>)]))"

fun applyEventV ::
  "VideoFrameExtractorState \<Rightarrow> Partial_Extractor event \<Rightarrow> VideoFrameExtractorState" where
  "applyEventV st (ChangeState p) = updateToolStateV st p"
| "applyEventV st _ = st"

definition runV ::
  "VideoFrameExtractorState \<Rightarrow> Partial_Extractor event list \<Rightarrow> VideoFrameExtractorState" where
  "runV st evs = foldl applyEventV st evs"

definition zipEntriesV :: "ExtractedFrame list \<Rightarrow> zip_files" where
  "zipEntriesV frames =
     foldl (\<lambda>zip frame. zip_file (displayNameF frame) (processedBlobF frame) zip) [] frames"

definition handleDownloadV ::
  "env \<Rightarrow> VideoFrameExtractorState \<Rightarrow> Partial_Extractor event list" where
  "handleDownloadV e st =
     (if length (extractedFrames st) = 0 then []
      else (case generateAsync e (zipEntriesV (extractedFrames st)) of
              None \<Rightarrow> [ConsoleErrorDownload]
            | Some zipBlob \<Rightarrow>
                (let baseName = (if trim (newNameV st) \<noteq> [] then trim (newNameV st)
                                 else ''extracted-frames'');
                     zipFileName = baseName @ ''(1-'' @ toString (length (extractedFrames st))
                                     @ '').zip''
                 in [Download zipFileName zipBlob])))"

definition handleDragSortV ::
  "nat option \<Rightarrow> nat option \<Rightarrow> VideoFrameExtractorState \<Rightarrow> ExtractedFrame option list option" where
  "handleDragSortV draggedItemIndex dragOverItemIndex st =
     dragSort draggedItemIndex dragOverItemIndex (extractedFrames st)"

text \<open>
  The states of the extractor that its handlers can produce from the default state.
  Only \<open>handleAddMarker\<close>, \<open>handleRemoveMarker\<close> and \<open>handleReset\<close> pass a
  \<open>markers\<close> field; every other call of \<open>onChangeState\<close> in the component leaves it
  out, which is the last rule.
\<close>

inductive reachable :: "VideoFrameExtractorState \<Rightarrow> bool" where
  initial: "reachable defaultExtractorState"
| add: "reachable st \<Longrightarrow> handleAddMarker t st = Some p \<Longrightarrow> reachable (updateToolStateV st p)"
| remove: "reachable st \<Longrightarrow> reachable (updateToolStateV st (handleRemoveMarker t st))"
| reset: "reachable st \<Longrightarrow> reachable (runV st (handleReset st))"
| other: "reachable st \<Longrightarrow> set_markers p = None \<Longrightarrow> reachable (updateToolStateV st p)"

section \<open>Closed forms of the two loops\<close>

text \<open>
  What one pass of the resizer's loop makes of the file at index \<open>i\<close>, and the file
  list once the loop has run from index \<open>i\<close> to the end. The loop itself is
  \<open>processLoop\<close>; these two functions only state its result.
\<close>

definition processItem :: "env \<Rightarrow> BatchImageResizerState \<Rightarrow> nat \<Rightarrow> ResizerFile \<Rightarrow> ResizerFile" where
  "processItem e st i file =
     (case resizeImage e (originalFile file) (resolution st) (outputFormat st) (compression st) of
        Inr r \<Rightarrow> processedFile st i file r
      | Inl err \<Rightarrow> file)"

definition processFrom :: "env \<Rightarrow> BatchImageResizerState \<Rightarrow> nat \<Rightarrow> ResizerFile list \<Rightarrow> ResizerFile list" where
  "processFrom e st i fs = map (\<lambda>(j, f). if i \<le> j then processItem e st j f else f) (enumerate 0 fs)"

text \<open>An event that leaves every field of the resizer's state but \<open>files\<close> alone.\<close>

definition touchesOnlyFiles :: "Partial_Resizer event \<Rightarrow> bool" where
  "touchesOnlyFiles ev = (case ev of ChangeState p \<Rightarrow> p\<lparr>set_files := None\<rparr> = no_change | _ \<Rightarrow> True)"

text \<open>
  The frames that the extractor's loop pushes for the marker \<open>ts\<close> at index \<open>i\<close>:
  one when the extraction succeeds, none when it fails.
\<close>

definition frameAt ::
  "env \<Rightarrow> VideoFrameExtractorState \<Rightarrow> video \<Rightarrow> nat \<times> number \<Rightarrow> ExtractedFrame list" where
  "frameAt e st v p =
     (case p of (i, ts) \<Rightarrow>
        (case extractFrame e (v\<lparr>currentTime := ts\<rparr>) (resolutionV st) (outputFormatV st)
                (compressionV st) of
           Inr r \<Rightarrow> [newFrame e st i ts r]
         | Inl err \<Rightarrow> []))"

text \<open>The times sought among a list of events, and whether an event is a state update.\<close>

fun seeks :: "'p event list \<Rightarrow> number list" where
  "seeks [] = []"
| "seeks (Seek t # evs) = t # seeks evs"
| "seeks (ev # evs) = seeks evs"

fun changesState :: "'p event \<Rightarrow> bool" where
  "changesState (ChangeState p) = True"
| "changesState _ = False"

text \<open>
  The file entry that \<open>zip.file\<close> stores for an item: its display name with its data.
\<close>

definition stored :: "Blob option \<Rightarrow> zip_object" where
  "stored data = FileData (case data of Some b \<Rightarrow> b | None \<Rightarrow> [])"

definition entryOf :: "ResizerFile \<Rightarrow> string \<times> zip_object" where
  "entryOf file = (displayName file, stored (processedBlob file))"

definition entryOfV :: "ExtractedFrame \<Rightarrow> string \<times> zip_object" where
  "entryOfV frame = (displayNameF frame, stored (processedBlobF frame))"

text \<open>
  An archive is closed when it holds the folders above each of its entries; \<open>keep\<close> is
  the entry a folder name has once \<open>folderAdd\<close> has run for it.
\<close>

definition closed :: "zip_files \<Rightarrow> bool" where
  "closed zs \<longleftrightarrow> (\<forall>k \<in> fst ` set zs. set (folders k) \<subseteq> fst ` set zs)"

definition keep :: "zip_files \<Rightarrow> string \<Rightarrow> zip_object option" where
  "keep zs k = (case map_of zs k of None \<Rightarrow> Some Folder | Some x \<Rightarrow> Some x)"

text \<open>The entry \<open>handleFileChange\<close> makes for a file that loaded with the given size.\<close>

definition newItem :: "File \<Rightarrow> nat \<Rightarrow> nat \<Rightarrow> ResizerFile" where
  "newItem file w h =
     \<lparr>id_ = name file, originalFile = file, previewUrl = ''blob:'' @ name file,
      displayName = name file, originalWidth = Some w, originalHeight = Some h,
      originalSize = Some (length (content file)), processedBlob = None,
      processedWidth = None, processedHeight = None, processedSize = None\<rparr>"

text \<open>The state after a click on "Add Marker" with the playhead at \<open>t\<close>.\<close>

definition addMarker :: "number \<Rightarrow> VideoFrameExtractorState \<Rightarrow> VideoFrameExtractorState" where
  "addMarker t st = (case handleAddMarker t st of Some p \<Rightarrow> updateToolStateV st p | None \<Rightarrow> st)"

section \<open>Concrete inputs\<close>

text \<open>
  A platform for the concrete runs below: an empty file cannot be read, one image does
  not decode, one is two pixels wide and two thousand high, one is 629 by 1360, and a
  canvas whose bitmap has no pixels encodes to nothing.
\<close>

definition env0 :: env where
  "env0 = \<lparr>readAsDataURL = (\<lambda>f. if content f = [] then None else Some (name f)),
           loadImage = (\<lambda>u. if u = ''broken.png'' then None
                             else if u = ''tall.png'' then Some (2, 2000)
                             else if u = ''odd.png'' then Some (629, 1360)
                             else Some (1920, 1080)),
           getContext = (\<lambda>w h. True),
           toBlob = (\<lambda>c. if bitmapWidth (tb_canvas c) = 0 \<or> bitmapHeight (tb_canvas c) = 0
                          then None else Some [1, 2, 3]),
           createObjectURL = (\<lambda>b. ''blob:0''),
           newFrameId = (\<lambda>t k. ''frame-id''),
           generateAsync = (\<lambda>entries. Some (concat (map (\<lambda>(n, obj). case obj of Folder \<Rightarrow> [] | FileData b \<Rightarrow> b)
                                                            entries)))\<rparr>"

definition file0 :: File where
  "file0 = \<lparr>name = ''photo.png'', lastModified = 0, content = [7, 7]\<rparr>"

definition oddFile :: File where
  "oddFile = \<lparr>name = ''odd.png'', lastModified = 0, content = [4]\<rparr>"

definition tallFile :: File where
  "tallFile = \<lparr>name = ''tall.png'', lastModified = 0, content = [5]\<rparr>"

definition brokenFile :: File where
  "brokenFile = \<lparr>name = ''broken.png'', lastModified = 0, content = [6]\<rparr>"

definition clip :: File where
  "clip = \<lparr>name = ''clip.mp4'', lastModified = 0, content = [9]\<rparr>"

definition video0 :: video where
  "video0 = \<lparr>videoWidth = 1280, videoHeight = 720, currentTime = 0\<rparr>"

definition r0 :: resized where
  "r0 = \<lparr>blob = [1, 2, 3], width = 1280, height = 720\<rparr>"

text \<open>Three files chosen, none processed yet, default settings.\<close>

definition stA :: BatchImageResizerState where
  "stA = defaultResizerState\<lparr>files := [newItem file0 1920 1080, newItem brokenFile 10 10,
                                         newItem tallFile 2 2000]\<rparr>"

text \<open>
  A first run at 1080 gives the narrow image an output (the width assigned to the canvas
  is 1.08, its bitmap is one pixel wide); the resolution is then set to 720, where the
  width assigned is 0.72, the bitmap has no pixels and the encoder returns nothing.
\<close>

definition stB :: BatchImageResizerState where
  "stB = defaultResizerState\<lparr>files := [newItem tallFile 2 2000], resolution := 1080\<rparr>"

definition stC :: BatchImageResizerState where
  "stC = updateToolState (run stB (handleProcess env0 stB)) (no_change\<lparr>set_resolution := Some 720\<rparr>)"

text \<open>
  One file processed under the base name \<open>trip\<close>, typed with a space on either side;
  then the base name is cleared.
\<close>

definition stT :: BatchImageResizerState where
  "stT = defaultResizerState\<lparr>files := [newItem file0 1920 1080], newName := '' trip ''\<rparr>"

definition stT2 :: BatchImageResizerState where
  "stT2 = updateToolState (run stT (handleProcess env0 stT)) (no_change\<lparr>set_newName := Some []\<rparr>)"

text \<open>The same file chosen twice, then processed with the default settings.\<close>

definition stD :: BatchImageResizerState where
  "stD = defaultResizerState\<lparr>files := [newItem file0 1920 1080, newItem file0 1920 1080]\<rparr>"

definition stD' :: BatchImageResizerState where
  "stD' = run stD (handleProcess env0 stD)"

definition stF :: BatchImageResizerState where
  "stF = defaultResizerState\<lparr>files := [newItem file0 1920 1080], newName := ''a/b''\<rparr>"

definition stF' :: BatchImageResizerState where
  "stF' = run stF (handleProcess env0 stF)"

definition photo :: ResizerFile where
  "photo = (newItem file0 1920 1080)\<lparr>processedBlob := Some [1, 2, 3],
              processedWidth := Some 1280, processedHeight := Some 720,
              processedSize := Some 3, displayName := ''photo.jpg''\<rparr>"

text \<open>A video is loaded, with one marker; the same with two extracted frames.\<close>

definition stV0 :: VideoFrameExtractorState where
  "stV0 = defaultExtractorState\<lparr>videoFile := Some clip, videoUrl := Some ''blob:clip'',
                                 videoDuration := 60, markers := [25 / 2]\<rparr>"

definition stVF :: VideoFrameExtractorState where
  "stVF = stV0\<lparr>extractedFrames := [newFrame env0 stV0 0 (25 / 2) r0, newFrame env0 stV0 1 30 r0]\<rparr>"

text \<open>A video has been chosen (\<open>handleFileChange\<close>), then markers are set at 30 and at 12.5.\<close>

definition stLoaded :: VideoFrameExtractorState where
  "stLoaded = updateToolStateV defaultExtractorState
     (no_changeV\<lparr>set_videoFile := Some (Some clip), set_videoUrl := Some (Some ''blob:clip''),
                 set_isPreviewCollapsed := Some False\<rparr>)"

definition stM1 :: VideoFrameExtractorState where
  "stM1 = addMarker 30 stLoaded"

definition stM2 :: VideoFrameExtractorState where
  "stM2 = addMarker (25 / 2) stM1"

section \<open>The reported dimensions\<close>

lemma Math_round_of_nat: "Math_round (of_nat n) = int n"
proof -
  have "\<lfloor>(of_int (int n) :: rat) + 1 / 2\<rfloor> = int n"
    by (rule floor_unique) simp_all
  then show ?thesis by (simp add: Math_round_def)
qed

lemma capture_dims:
  assumes "capture e src w h m fmt c = Inr (call, wd, ht)"
  shows "(wd, ht) = (if h \<le> m then (of_nat w, of_nat h)
                     else (fmul (of_nat w) (fdiv (of_nat m) (of_nat h)), of_nat m))"
  using assms by (auto simp: capture_def Let_def split: if_splits)

lemma toBlob_callback_dims:
  assumes "toBlob_callback e (call, wd, ht) = Inr r"
  shows "width r = Math_round wd \<and> height r = Math_round ht \<and> toBlob e call = Some (blob r)"
  using assms by (auto simp: toBlob_callback_def split: option.splits)

lemma resizeImage_Inr:
  assumes "resizeImage e file m fmt c = Inr r"
  obtains url w h call wd ht where
    "readAsDataURL e file = Some url" "loadImage e url = Some (w, h)"
    "capture e (ImageSource url) w h m fmt c = Inr (call, wd, ht)"
    "toBlob_callback e (call, wd, ht) = Inr r"
  using assms unfolding resizeImage_def
  by (auto split: option.splits sum.splits prod.splits)

lemma extractFrame_Inr:
  assumes "extractFrame e v m fmt c = Inr r"
  obtains call wd ht where
    "capture e (VideoFrame (currentTime v)) (videoWidth v) (videoHeight v) m fmt c = Inr (call, wd, ht)"
    "toBlob_callback e (call, wd, ht) = Inr r"
  using assms unfolding extractFrame_def
  by (auto split: option.splits sum.splits prod.splits)

lemma reported_dims:
  assumes "capture e src w h m fmt c = Inr (call, wd, ht)"
      and "toBlob_callback e (call, wd, ht) = Inr r"
  shows "(width r, height r) =
           (if h \<le> m then (int w, int h)
            else (Math_round (fmul (of_nat w) (fdiv (of_nat m) (of_nat h))), int m))"
proof -
  from capture_dims [OF assms(1)] have
    "wd = (if h \<le> m then of_nat w else fmul (of_nat w) (fdiv (of_nat m) (of_nat h)))"
    "ht = (if h \<le> m then of_nat h else of_nat m)"
    by (auto split: if_splits)
  moreover from toBlob_callback_dims [OF assms(2)] have
    "width r = Math_round wd" "height r = Math_round ht" by simp_all
  ultimately show ?thesis by (simp add: Math_round_of_nat)
qed

text \<open>
  The error of the rounded arithmetic: a double is within a relative error of \<open>2 ^ -53\<close>
  of the number it rounds, so that for a width below \<open>2 ^ 32\<close> the computed product is
  less than a half away from the exact one.
\<close>

lemma ilog2_bounds: "0 < n \<Longrightarrow> 2 ^ ilog2 n \<le> n \<and> n < 2 ^ Suc (ilog2 n)"
proof (induction n rule: ilog2.induct)
  case (1 n)
  show ?case
  proof (cases "n < 2")
    case True
    with "1.prems" have "n = 1" by simp
    then show ?thesis by (simp add: ilog2.simps)
  next
    case False
    then have "0 < n div 2" by simp
    from "1.IH" [OF False this]
    have "2 ^ ilog2 (n div 2) \<le> n div 2" "n div 2 < 2 ^ Suc (ilog2 (n div 2))" by simp_all
    moreover have "ilog2 n = Suc (ilog2 (n div 2))" using False by (simp add: ilog2.simps [of n])
    ultimately show ?thesis by simp linarith
  qed
qed

lemma exponent_le:
  assumes "0 < x"
  shows "2 powi exponent x \<le> x"
proof (cases "1 \<le> x")
  case True
  define n where "n = nat \<lfloor>x\<rfloor>"
  from True have n: "0 < n" "of_nat n \<le> x" by (simp_all add: n_def)
  from ilog2_bounds [OF n(1)] have "(2::nat) ^ ilog2 n \<le> n" by simp
  then have "(of_nat (2 ^ ilog2 n) :: rat) \<le> of_nat n" by (rule of_nat_mono)
  moreover have "(of_nat (2 ^ ilog2 n) :: rat) = 2 ^ ilog2 n" by simp
  ultimately have "(2::rat) ^ ilog2 n \<le> x" using n(2) by linarith
  with True show ?thesis by (simp add: exponent_def n_def)
next
  case False
  define n where "n = nat \<lfloor>1 / x\<rfloor>"
  define k where "k = ilog2 n"
  from False assms have "1 < 1 / x" by simp
  then have n: "0 < n" by (simp add: n_def)
  have "1 / x < of_int \<lfloor>1 / x\<rfloor> + 1" by linarith
  also have "of_int \<lfloor>1 / x\<rfloor> = (of_nat n :: rat)"
  proof -
    from assms have "0 \<le> \<lfloor>1 / x\<rfloor>" by simp
    then show ?thesis by (simp add: n_def)
  qed
  finally have "1 / x < of_nat (n + 1)" by simp
  moreover from ilog2_bounds [OF n] have "n + 1 \<le> 2 ^ Suc k" by (simp add: k_def)
  then have "(of_nat (n + 1) :: rat) \<le> of_nat (2 ^ Suc k)" by (rule of_nat_mono)
  moreover have "(of_nat (2 ^ Suc k) :: rat) = 2 ^ Suc k" by (simp del: power_Suc)
  ultimately have "1 / x < 2 ^ Suc k" by linarith
  with assms have lt: "1 / 2 ^ Suc k < x"
    by (simp add: field_simps)
  show ?thesis
  proof (cases "x * 2 ^ k = 1")
    case True
    have e: "exponent x = - int k"
      using False True by (simp add: exponent_def Let_def n_def k_def)
    from True have "x = 1 / 2 ^ k" by (simp add: field_simps)
    then show ?thesis
      unfolding e by (simp add: power_int_minus field_simps)
  next
    case ne: False
    have e: "exponent x = - int k - 1"
      using False ne by (simp add: exponent_def Let_def n_def k_def)
    have "2 powi (- int k - 1) = (1 / 2 ^ Suc k :: rat)"
      by (simp add: power_int_diff power_int_minus field_simps)
    with lt show ?thesis
      unfolding e by simp
  qed
qed

lemma exponent_gt:
  assumes "0 < x"
  shows "x < 2 powi (exponent x + 1)"
proof (cases "1 \<le> x")
  case True
  define n where "n = nat \<lfloor>x\<rfloor>"
  from True have n: "0 < n" by (simp add: n_def)
  have "x < of_int \<lfloor>x\<rfloor> + 1" by linarith
  also have "of_int \<lfloor>x\<rfloor> = (of_nat n :: rat)"
  proof -
    from True have "0 \<le> \<lfloor>x\<rfloor>" by simp
    then show ?thesis by (simp add: n_def)
  qed
  finally have "x < of_nat (n + 1)" by simp
  moreover from ilog2_bounds [OF n] have "n + 1 \<le> 2 ^ Suc (ilog2 n)" by simp
  then have "(of_nat (n + 1) :: rat) \<le> of_nat (2 ^ Suc (ilog2 n))" by (rule of_nat_mono)
  moreover have "(of_nat (2 ^ Suc (ilog2 n)) :: rat) = 2 ^ Suc (ilog2 n)" by (simp del: power_Suc)
  ultimately have "x < 2 ^ Suc (ilog2 n)" by linarith
  moreover have "2 powi (int (ilog2 n) + 1) = (2 :: rat) ^ Suc (ilog2 n)"
    by (simp add: power_int_add)
  ultimately show ?thesis using True by (simp add: exponent_def n_def)
next
  case False
  define n where "n = nat \<lfloor>1 / x\<rfloor>"
  define k where "k = ilog2 n"
  from False assms have "1 < 1 / x" by simp
  then have n: "0 < n" by (simp add: n_def)
  from assms have "0 \<le> \<lfloor>1 / x\<rfloor>" by simp
  then have "(of_nat n :: rat) = of_int \<lfloor>1 / x\<rfloor>" by (simp add: n_def)
  then have nx: "(of_nat n :: rat) \<le> 1 / x" by simp
  from ilog2_bounds [OF n] have "2 ^ k \<le> n" by (simp add: k_def)
  then have "(of_nat (2 ^ k) :: rat) \<le> of_nat n" by (rule of_nat_mono)
  moreover have "(of_nat (2 ^ k) :: rat) = 2 ^ k" by simp
  ultimately have "(2 :: rat) ^ k \<le> 1 / x" using nx by linarith
  with assms have le: "x * 2 ^ k \<le> 1" by (simp add: field_simps)
  show ?thesis
  proof (cases "x * 2 ^ k = 1")
    case True
    have e: "exponent x = - int k" using False True by (simp add: exponent_def Let_def n_def k_def)
    from True have x: "x = 1 / 2 ^ k" by (simp add: field_simps)
    have "2 powi (- int k + 1) = (2 / 2 ^ k :: rat)"
      by (simp add: power_int_diff)
    moreover have "(1 / 2 ^ k :: rat) < 2 / 2 ^ k" by (simp add: divide_strict_right_mono)
    ultimately have "x < 2 powi (- int k + 1)" using x by simp
    then show ?thesis by (simp only: e)
  next
    case ne: False
    have e: "exponent x = - int k - 1" using False ne by (simp add: exponent_def Let_def n_def k_def)
    from le ne have "x * 2 ^ k < 1" by simp
    then have "x < 1 / 2 ^ k" by (simp add: field_simps)
    moreover have "2 powi (- int k - 1 + 1) = (1 / 2 ^ k :: rat)"
      by (simp add: power_int_minus field_simps)
    ultimately show ?thesis unfolding e by simp
  qed
qed

lemma round_even_err: "\<bar>of_int (round_even y) - y\<bar> \<le> 1 / 2"
proof -
  have "of_int \<lfloor>y\<rfloor> \<le> y" "y < of_int \<lfloor>y\<rfloor> + 1" by linarith+
  then show ?thesis
    unfolding round_even_def Let_def by (simp split: if_splits)
qed

lemma round_even_nonneg: "0 \<le> y \<Longrightarrow> 0 \<le> round_even y"
  unfolding round_even_def Let_def by (simp split: if_splits)

lemma fl_nonneg: "0 \<le> x \<Longrightarrow> 0 \<le> fl x"
  by (auto simp: fl_def Let_def round_even_nonneg sgn_if)

lemma fl_err:
  assumes "0 \<le> x"
  shows "\<bar>fl x - x\<bar> \<le> x / 2 ^ 53"
proof (cases "x = 0")
  case True
  then show ?thesis by (simp add: fl_def)
next
  case False
  with assms have pos: "0 < x" by simp
  define u :: rat where "u = 2 powi (exponent x - 52)"
  have u: "0 < u" by (simp add: u_def)
  have fl: "fl x = of_int (round_even (x / u)) * u"
    using pos by (simp add: fl_def u_def Let_def)
  have "fl x - x = (of_int (round_even (x / u)) - x / u) * u"
    using u by (simp add: fl field_simps)
  then have "\<bar>fl x - x\<bar> = \<bar>of_int (round_even (x / u)) - x / u\<bar> * u"
    using u by (simp add: abs_mult)
  also have "\<dots> \<le> 1 / 2 * u"
    using round_even_err [of "x / u"] u by (intro mult_right_mono) simp_all
  also have "1 / 2 * u = 2 powi exponent x / 2 ^ 53"
    by (simp add: u_def power_int_diff)
  also have "\<dots> \<le> x / 2 ^ 53"
    using exponent_le [OF pos] by (simp add: divide_right_mono)
  finally show ?thesis .
qed

lemma Math_round_bounds: "x - 1 / 2 < of_int (Math_round x)" "of_int (Math_round x) \<le> x + 1 / 2"
  unfolding Math_round_def by linarith+

lemma width_within_one:
  assumes "m < h" "w < 2 ^ 32"
  shows "\<bar>Math_round (fmul (of_nat w) (fdiv (of_nat m) (of_nat h)))
          - Math_round (of_nat w * (of_nat m / of_nat h))\<bar> \<le> 1"
proof -
  define q :: rat where "q = of_nat m / of_nat h"
  define q' where "q' = fl q"
  define p where "p = of_nat w * q'"
  define W :: rat where "W = of_nat w"
  from assms(1) have q: "0 \<le> q" "q \<le> 1" by (simp_all add: q_def)
  have W: "0 \<le> W" "W \<le> 2 ^ 32" using assms(2) by (simp_all add: W_def)
  have q': "0 \<le> q'" "\<bar>q' - q\<bar> \<le> q / 2 ^ 53"
    using fl_nonneg [OF q(1)] fl_err [OF q(1)] by (simp_all add: q'_def)
  moreover have "q / 2 ^ 53 \<le> q" using q(1) by (simp add: field_simps)
  ultimately have q'2: "q' \<le> 2" using q by linarith
  have p: "0 \<le> p" using q'(1) by (simp add: p_def)
  have pW: "p \<le> 2 * W" using q'2 W(1) unfolding p_def W_def [symmetric]
    by (metis mult.commute mult_left_mono)
  have e1: "\<bar>fl p - p\<bar> \<le> p / 2 ^ 53" by (rule fl_err [OF p])
  have "\<bar>p - W * q\<bar> = W * \<bar>q' - q\<bar>"
    using W(1) by (simp add: p_def W_def [symmetric] abs_mult right_diff_distrib [symmetric])
  also have "\<dots> \<le> W * (q / 2 ^ 53)"
    using q'(2) W(1) by (rule mult_left_mono)
  also have "\<dots> \<le> W * (1 / 2 ^ 53)"
    using q(2) W(1) by (intro mult_left_mono) (simp_all add: divide_right_mono)
  finally have e2: "\<bar>p - W * q\<bar> \<le> W / 2 ^ 53" by simp
  from e1 pW have e1': "\<bar>fl p - p\<bar> \<le> 2 * W / 2 ^ 53"
    by (meson divide_right_mono order_trans zero_le_numeral zero_le_power)
  have "\<bar>fl p - W * q\<bar> \<le> \<bar>fl p - p\<bar> + \<bar>p - W * q\<bar>"
    using abs_triangle_ineq [of "fl p - p" "p - W * q"] by simp
  with e1' e2 have "\<bar>fl p - W * q\<bar> \<le> 3 * W / 2 ^ 53"
    by simp
  also have "\<dots> \<le> 3 * 2 ^ 32 / 2 ^ 53"
    using W(2) by (simp add: divide_right_mono)
  finally have close: "\<bar>fl p - W * q\<bar> < 1 / 2" by simp
  have "fmul (of_nat w) (fdiv (of_nat m) (of_nat h)) = fl p"
    by (simp add: fmul_def fdiv_def p_def q'_def q_def)
  moreover have "of_nat w * (of_nat m / of_nat h) = W * q" by (simp add: W_def q_def)
  ultimately show ?thesis
    using close Math_round_bounds [of "fl p"] Math_round_bounds [of "W * q"]
    by (simp only:)
qed


text \<open>
  Claim C1, as the code has it. For every image or video frame with natural dimensions
  (naturalWidth, naturalHeight) and every configured maxHeight: if naturalHeight is at
  most maxHeight, the dimensions reported are the input dimensions unchanged; otherwise
  the reported height is maxHeight and the reported width is \<open>Math.round\<close> of the
  double that the code computes, the product of naturalWidth and the quotient
  maxHeight / naturalHeight, the quotient and then the product each rounded to the
  nearest double. The first conjunct is \<open>resizeImage\<close>, the second \<open>extractFrame\<close>.
  The third compares that width with the exactly computed and rounded one: for a
  natural width below \<open>2 ^ 32\<close> the two differ by one at most.
\<close>

theorem resample_reported_dimensions:
  "(resizeImage e file maxHeight fmt c = Inr r \<and> readAsDataURL e file = Some url
      \<and> loadImage e url = Some (naturalWidth, naturalHeight) \<longrightarrow>
    (width r, height r) =
      (if naturalHeight \<le> maxHeight then (int naturalWidth, int naturalHeight)
       else (Math_round (fmul (of_nat naturalWidth) (fdiv (of_nat maxHeight) (of_nat naturalHeight))),
             int maxHeight)))
   \<and> (extractFrame e v maxHeight fmt c = Inr r' \<longrightarrow>
    (width r', height r') =
      (if videoHeight v \<le> maxHeight then (int (videoWidth v), int (videoHeight v))
       else (Math_round (fmul (of_nat (videoWidth v)) (fdiv (of_nat maxHeight) (of_nat (videoHeight v)))),
             int maxHeight)))
   \<and> (maxHeight < naturalHeight \<and> naturalWidth < 2 ^ 32 \<longrightarrow>
    \<bar>Math_round (fmul (of_nat naturalWidth) (fdiv (of_nat maxHeight) (of_nat naturalHeight)))
      - Math_round (of_nat naturalWidth * (of_nat maxHeight / of_nat naturalHeight))\<bar> \<le> 1)"
proof (intro conjI impI)
  assume a: "resizeImage e file maxHeight fmt c = Inr r \<and> readAsDataURL e file = Some url
      \<and> loadImage e url = Some (naturalWidth, naturalHeight)"
  then obtain call wd ht where
    "capture e (ImageSource url) naturalWidth naturalHeight maxHeight fmt c = Inr (call, wd, ht)"
    "toBlob_callback e (call, wd, ht) = Inr r"
    by (auto elim!: resizeImage_Inr)
  then show "(width r, height r) =
      (if naturalHeight \<le> maxHeight then (int naturalWidth, int naturalHeight)
       else (Math_round (fmul (of_nat naturalWidth) (fdiv (of_nat maxHeight) (of_nat naturalHeight))),
             int maxHeight))"
    by (rule reported_dims)
next
  assume "extractFrame e v maxHeight fmt c = Inr r'"
  then obtain call wd ht where
    "capture e (VideoFrame (currentTime v)) (videoWidth v) (videoHeight v) maxHeight fmt c = Inr (call, wd, ht)"
    "toBlob_callback e (call, wd, ht) = Inr r'"
    by (rule extractFrame_Inr)
  then show "(width r', height r') =
      (if videoHeight v \<le> maxHeight then (int (videoWidth v), int (videoHeight v))
       else (Math_round (fmul (of_nat (videoWidth v)) (fdiv (of_nat maxHeight) (of_nat (videoHeight v)))),
             int maxHeight))"
    by (rule reported_dims)
next
  assume "maxHeight < naturalHeight \<and> naturalWidth < 2 ^ 32"
  then show "\<bar>Math_round (fmul (of_nat naturalWidth) (fdiv (of_nat maxHeight) (of_nat naturalHeight)))
      - Math_round (of_nat naturalWidth * (of_nat maxHeight / of_nat naturalHeight))\<bar> \<le> 1"
    by (intro width_within_one) simp_all
qed

text \<open>Concrete values of the rounded arithmetic and of the canvas sizes.\<close>

lemma Math_round_numeral: "Math_round (numeral n) = numeral n"
  using Math_round_of_nat [of "numeral n"] by simp

lemma arith_photo: "fmul 1920 (fdiv 720 1080) = 1280"
  by code_simp

lemma arith_odd:
  "Math_round (fmul 629 (fdiv 1080 1360)) = 499"
  "canvas_dimension 300 (fmul 629 (fdiv 1080 1360)) = 499"
  by code_simp+

lemma arith_tall:
  "Math_round (fmul 2 (fdiv 1080 2000)) = 1"
  "canvas_dimension 300 (fmul 2 (fdiv 1080 2000)) = 1"
  "canvas_dimension 300 (fmul 2 (fdiv 720 2000)) = 0"
  by code_simp+

lemma canvas_sizes:
  "canvas_dimension 300 1280 = 1280" "canvas_dimension 150 720 = 720"
  "canvas_dimension 150 1080 = 1080"
  by code_simp+

text \<open>Concrete runs of the shared body and of the two functions around it.\<close>

lemma capture_photo:
  "capture env0 (ImageSource ''photo.png'') 1920 1080 720 jpeg True =
     Inr (\<lparr>tb_canvas = \<lparr>cwidth = 1280, cheight = 720, bitmapWidth = 1280, bitmapHeight = 720,
             ops = [FillRect ''#FFFFFF'' 0 0 1280 720,
                    DrawImage (ImageSource ''photo.png'') 0 0 1280 720]\<rparr>,
           tb_mimeType = ''image/jpeg'', tb_quality = Some (7 / 10)\<rparr>, 1280, 720)"
  by (simp add: capture_def env0_def Let_def arith_photo canvas_sizes)

lemma capture_video0:
  "capture env0 (VideoFrame t) 1280 720 720 jpeg True =
     Inr (\<lparr>tb_canvas = \<lparr>cwidth = 1280, cheight = 720, bitmapWidth = 1280, bitmapHeight = 720,
             ops = [FillRect ''#FFFFFF'' 0 0 1280 720, DrawImage (VideoFrame t) 0 0 1280 720]\<rparr>,
           tb_mimeType = ''image/jpeg'', tb_quality = Some (7 / 10)\<rparr>, 1280, 720)"
  by (simp add: capture_def env0_def Let_def canvas_sizes)

lemma resizeImage_env0:
  "resizeImage env0 file0 720 jpeg True = Inr \<lparr>blob = [1, 2, 3], width = 1280, height = 720\<rparr>"
proof -
  have "readAsDataURL env0 file0 = Some ''photo.png''"
    "loadImage env0 ''photo.png'' = Some (1920, 1080)"
    by (simp_all add: env0_def file0_def)
  then show ?thesis
    by (simp add: resizeImage_def capture_photo toBlob_callback_def Math_round_numeral)
       (simp add: env0_def Math_round_numeral arith_odd arith_tall)
qed

lemma extractFrame_env0:
  "extractFrame env0 video0 720 jpeg True = Inr \<lparr>blob = [1, 2, 3], width = 1280, height = 720\<rparr>"
  by (simp add: extractFrame_def video0_def capture_video0 toBlob_callback_def Math_round_numeral)
     (simp add: env0_def Math_round_numeral arith_odd arith_tall)

lemma Math_round_half: "Math_round (999 / 2) = 500"
  by code_simp

lemma resizeImage_odd:
  "readAsDataURL env0 oddFile = Some ''odd.png''"
  "loadImage env0 ''odd.png'' = Some (629, 1360)"
  "resizeImage env0 oddFile 1080 jpeg True = Inr \<lparr>blob = [1, 2, 3], width = 499, height = 1080\<rparr>"
proof -
  show 1: "readAsDataURL env0 oddFile = Some ''odd.png''"
    "loadImage env0 ''odd.png'' = Some (629, 1360)"
    by (simp_all add: env0_def oddFile_def)
  show "resizeImage env0 oddFile 1080 jpeg True = Inr \<lparr>blob = [1, 2, 3], width = 499, height = 1080\<rparr>"
    by (simp add: resizeImage_def 1 capture_def Let_def toBlob_callback_def arith_odd canvas_sizes
          Math_round_numeral)
       (simp add: env0_def Math_round_numeral arith_odd arith_tall)
qed

lemma extractFrame_env0_1080:
  "extractFrame env0 video0 1080 jpeg True = Inr \<lparr>blob = [1, 2, 3], width = 1280, height = 720\<rparr>"
  by (simp add: extractFrame_def video0_def capture_def Let_def canvas_sizes toBlob_callback_def
        Math_round_numeral)
     (simp add: env0_def Math_round_numeral)

theorem resample_reported_dimensions_witness:
  "resizeImage env0 oddFile 1080 jpeg True = Inr \<lparr>blob = [1, 2, 3], width = 499, height = 1080\<rparr>
   \<and> readAsDataURL env0 oddFile = Some ''odd.png''
   \<and> loadImage env0 ''odd.png'' = Some (629, 1360)
   \<and> Math_round (fmul (of_nat 629) (fdiv (of_nat 1080) (of_nat 1360))) = 499
   \<and> extractFrame env0 video0 1080 jpeg True = Inr \<lparr>blob = [1, 2, 3], width = 1280, height = 720\<rparr>
   \<and> (videoWidth video0, videoHeight video0) = (1280, 720)
   \<and> (1080 :: nat) < 1360 \<and> (629 :: nat) < 2 ^ 32
   \<and> \<bar>Math_round (fmul (of_nat 629) (fdiv (of_nat 1080) (of_nat 1360)))
        - Math_round (of_nat 629 * (of_nat 1080 / of_nat 1360))\<bar> \<le> 1"
  using resample_reported_dimensions [of env0 oddFile 1080 jpeg True
      "\<lparr>blob = [1, 2, 3], width = 499, height = 1080\<rparr>" "''odd.png''" 629 1360 video0
      "\<lparr>blob = [1, 2, 3], width = 1280, height = 720\<rparr>"]
  by (simp add: resizeImage_odd extractFrame_env0_1080 Math_round_half)
     (simp add: video0_def)

text \<open>
  A 629 by 1360 image capped to 1080: the exact product is 499.5, which rounds to 500;
  the quotient rounded to a double is a little less than 27/34, the product is the
  double just below 499.5, and the code reports 499. Claim C1, read with exact
  arithmetic, does not hold.
\<close>

theorem exact_rounding_counterexample:
  "readAsDataURL env0 oddFile = Some ''odd.png''
   \<and> loadImage env0 ''odd.png'' = Some (629, 1360)
   \<and> resizeImage env0 oddFile 1080 jpeg True = Inr \<lparr>blob = [1, 2, 3], width = 499, height = 1080\<rparr>
   \<and> Math_round (of_nat 629 * (of_nat 1080 / of_nat 1360)) = 500"
proof -
  have "Math_round (of_nat 629 * (of_nat 1080 / of_nat 1360)) = 500"
    using Math_round_half by simp
  with resizeImage_odd show ?thesis by simp
qed

section \<open>The call of the encoder and the drawing before it\<close>

lemma capture_call:
  assumes "capture e src w h m fmt c = Inr (call, wd, ht)"
  shows "call = \<lparr>tb_canvas = \<lparr>cwidth = wd, cheight = ht,
                    bitmapWidth = canvas_dimension 300 wd,
                    bitmapHeight = canvas_dimension 150 ht,
                    ops = (case fmt of jpeg \<Rightarrow> [FillRect ''#FFFFFF'' 0 0 wd ht, DrawImage src 0 0 wd ht]
                                     | png \<Rightarrow> [DrawImage src 0 0 wd ht])\<rparr>,
                 tb_mimeType = (case fmt of jpeg \<Rightarrow> ''image/jpeg'' | png \<Rightarrow> ''image/png''),
                 tb_quality = (case fmt of jpeg \<Rightarrow> Some (if c then 7 / 10 else 1) | png \<Rightarrow> None)\<rparr>"
  using assms by (cases fmt) (auto simp: capture_def Let_def split: if_splits)

text \<open>
  Claim C4. For every encode call: when the format is JPEG the quality passed to the
  encoder is 0.7 with compression enabled and 1.0 with compression disabled; when the
  format is PNG no quality is passed. The first conjunct is the call that the shared
  body makes; the other two say that the blob \<open>resizeImage\<close> and \<open>extractFrame\<close>
  resolve with is the encoder's answer to a call with that quality.
\<close>

theorem encoder_quality:
  "(capture e src w h m fmt c = Inr (call, wd, ht) \<longrightarrow>
      tb_mimeType call = (case fmt of jpeg \<Rightarrow> ''image/jpeg'' | png \<Rightarrow> ''image/png'')
      \<and> tb_quality call = (case fmt of jpeg \<Rightarrow> Some (if c then 7 / 10 else 1) | png \<Rightarrow> None))
   \<and> (resizeImage e file m fmt c = Inr r \<longrightarrow>
        (\<exists>call'. toBlob e call' = Some (blob r)
           \<and> tb_mimeType call' = (case fmt of jpeg \<Rightarrow> ''image/jpeg'' | png \<Rightarrow> ''image/png'')
           \<and> tb_quality call' = (case fmt of jpeg \<Rightarrow> Some (if c then 7 / 10 else 1) | png \<Rightarrow> None)))
   \<and> (extractFrame e v m fmt c = Inr r' \<longrightarrow>
        (\<exists>call'. toBlob e call' = Some (blob r')
           \<and> tb_mimeType call' = (case fmt of jpeg \<Rightarrow> ''image/jpeg'' | png \<Rightarrow> ''image/png'')
           \<and> tb_quality call' = (case fmt of jpeg \<Rightarrow> Some (if c then 7 / 10 else 1) | png \<Rightarrow> None)))"
proof (intro conjI impI)
  assume "capture e src w h m fmt c = Inr (call, wd, ht)"
  from capture_call [OF this]
  show "tb_mimeType call = (case fmt of jpeg \<Rightarrow> ''image/jpeg'' | png \<Rightarrow> ''image/png'')"
    and "tb_quality call = (case fmt of jpeg \<Rightarrow> Some (if c then 7 / 10 else 1) | png \<Rightarrow> None)"
    by simp_all
next
  assume "resizeImage e file m fmt c = Inr r"
  then obtain url w' h' call' wd' ht' where
    c: "capture e (ImageSource url) w' h' m fmt c = Inr (call', wd', ht')"
    and t: "toBlob_callback e (call', wd', ht') = Inr r"
    by (rule resizeImage_Inr)
  from capture_call [OF c] toBlob_callback_dims [OF t]
  show "\<exists>call'. toBlob e call' = Some (blob r)
           \<and> tb_mimeType call' = (case fmt of jpeg \<Rightarrow> ''image/jpeg'' | png \<Rightarrow> ''image/png'')
           \<and> tb_quality call' = (case fmt of jpeg \<Rightarrow> Some (if c then 7 / 10 else 1) | png \<Rightarrow> None)"
    by (intro exI [of _ call']) simp
next
  assume "extractFrame e v m fmt c = Inr r'"
  then obtain call' wd' ht' where
    c: "capture e (VideoFrame (currentTime v)) (videoWidth v) (videoHeight v) m fmt c = Inr (call', wd', ht')"
    and t: "toBlob_callback e (call', wd', ht') = Inr r'"
    by (rule extractFrame_Inr)
  from capture_call [OF c] toBlob_callback_dims [OF t]
  show "\<exists>call'. toBlob e call' = Some (blob r')
           \<and> tb_mimeType call' = (case fmt of jpeg \<Rightarrow> ''image/jpeg'' | png \<Rightarrow> ''image/png'')
           \<and> tb_quality call' = (case fmt of jpeg \<Rightarrow> Some (if c then 7 / 10 else 1) | png \<Rightarrow> None)"
    by (intro exI [of _ call']) simp
qed


theorem encoder_quality_witness:
  "capture env0 (VideoFrame 0) 1280 720 720 jpeg True =
     Inr (\<lparr>tb_canvas = \<lparr>cwidth = 1280, cheight = 720, bitmapWidth = 1280, bitmapHeight = 720,
             ops = [FillRect ''#FFFFFF'' 0 0 1280 720, DrawImage (VideoFrame 0) 0 0 1280 720]\<rparr>,
           tb_mimeType = ''image/jpeg'', tb_quality = Some (7 / 10)\<rparr>, 1280, 720)
   \<and> resizeImage env0 file0 720 jpeg True = Inr \<lparr>blob = [1, 2, 3], width = 1280, height = 720\<rparr>
   \<and> extractFrame env0 video0 720 jpeg True = Inr \<lparr>blob = [1, 2, 3], width = 1280, height = 720\<rparr>
   \<and> (\<exists>call'. toBlob env0 call' = Some [1, 2, 3] \<and> tb_mimeType call' = ''image/jpeg''
          \<and> tb_quality call' = Some (7 / 10))"
  using encoder_quality [of env0 "VideoFrame 0" 1280 720 720 jpeg True
     "\<lparr>tb_canvas = \<lparr>cwidth = 1280, cheight = 720, bitmapWidth = 1280, bitmapHeight = 720,
             ops = [FillRect ''#FFFFFF'' 0 0 1280 720, DrawImage (VideoFrame 0) 0 0 1280 720]\<rparr>,
           tb_mimeType = ''image/jpeg'', tb_quality = Some (7 / 10)\<rparr>" 1280 720
     file0 "\<lparr>blob = [1, 2, 3], width = 1280, height = 720\<rparr>" video0
     "\<lparr>blob = [1, 2, 3], width = 1280, height = 720\<rparr>"]
  by (simp add: resizeImage_env0 extractFrame_env0 capture_video0)


text \<open>
  Claim C7. For every resample to JPEG the canvas is filled with \<open>#FFFFFF\<close> over the
  rectangle from the origin to the width and height assigned to it, before the source
  is drawn; for PNG the drawing of the source is the only call. The first conjunct is
  the shared body, the other two are \<open>resizeImage\<close> and \<open>extractFrame\<close>.
\<close>

theorem jpeg_white_prefill:
  "(capture e src w h m fmt c = Inr (call, wd, ht) \<longrightarrow>
      cwidth (tb_canvas call) = wd \<and> cheight (tb_canvas call) = ht
      \<and> ops (tb_canvas call) =
            (case fmt of jpeg \<Rightarrow> [FillRect ''#FFFFFF'' 0 0 wd ht, DrawImage src 0 0 wd ht]
                       | png \<Rightarrow> [DrawImage src 0 0 wd ht]))
   \<and> (resizeImage e file m fmt c = Inr r \<longrightarrow>
        (\<exists>cv url. toBlob e \<lparr>tb_canvas = cv, tb_mimeType = (case fmt of jpeg \<Rightarrow> ''image/jpeg'' | png \<Rightarrow> ''image/png''),
                                 tb_quality = (case fmt of jpeg \<Rightarrow> Some (if c then 7 / 10 else 1) | png \<Rightarrow> None)\<rparr>
                       = Some (blob r)
           \<and> readAsDataURL e file = Some url
           \<and> ops cv =
                (case fmt of
                   jpeg \<Rightarrow> [FillRect ''#FFFFFF'' 0 0 (cwidth cv) (cheight cv),
                            DrawImage (ImageSource url) 0 0 (cwidth cv) (cheight cv)]
                 | png \<Rightarrow> [DrawImage (ImageSource url) 0 0 (cwidth cv) (cheight cv)])))
   \<and> (extractFrame e v m fmt c = Inr r' \<longrightarrow>
        (\<exists>cv. toBlob e \<lparr>tb_canvas = cv, tb_mimeType = (case fmt of jpeg \<Rightarrow> ''image/jpeg'' | png \<Rightarrow> ''image/png''),
                             tb_quality = (case fmt of jpeg \<Rightarrow> Some (if c then 7 / 10 else 1) | png \<Rightarrow> None)\<rparr>
                       = Some (blob r')
           \<and> ops cv =
                (case fmt of
                   jpeg \<Rightarrow> [FillRect ''#FFFFFF'' 0 0 (cwidth cv) (cheight cv),
                            DrawImage (VideoFrame (currentTime v)) 0 0 (cwidth cv) (cheight cv)]
                 | png \<Rightarrow> [DrawImage (VideoFrame (currentTime v)) 0 0 (cwidth cv) (cheight cv)])))"
proof (intro conjI impI)
  assume "capture e src w h m fmt c = Inr (call, wd, ht)"
  from capture_call [OF this]
  show "cwidth (tb_canvas call) = wd" and "cheight (tb_canvas call) = ht"
    and "ops (tb_canvas call) =
            (case fmt of jpeg \<Rightarrow> [FillRect ''#FFFFFF'' 0 0 wd ht, DrawImage src 0 0 wd ht]
                       | png \<Rightarrow> [DrawImage src 0 0 wd ht])"
    by simp_all
next
  assume "resizeImage e file m fmt c = Inr r"
  then obtain url w' h' call' wd' ht' where
    u: "readAsDataURL e file = Some url"
    and c: "capture e (ImageSource url) w' h' m fmt c = Inr (call', wd', ht')"
    and t: "toBlob_callback e (call', wd', ht') = Inr r"
    by (rule resizeImage_Inr)
  from capture_call [OF c] toBlob_callback_dims [OF t] u
  show "\<exists>cv url. toBlob e \<lparr>tb_canvas = cv, tb_mimeType = (case fmt of jpeg \<Rightarrow> ''image/jpeg'' | png \<Rightarrow> ''image/png''),
                                 tb_quality = (case fmt of jpeg \<Rightarrow> Some (if c then 7 / 10 else 1) | png \<Rightarrow> None)\<rparr>
                       = Some (blob r)
           \<and> readAsDataURL e file = Some url
           \<and> ops cv =
                (case fmt of
                   jpeg \<Rightarrow> [FillRect ''#FFFFFF'' 0 0 (cwidth cv) (cheight cv),
                            DrawImage (ImageSource url) 0 0 (cwidth cv) (cheight cv)]
                 | png \<Rightarrow> [DrawImage (ImageSource url) 0 0 (cwidth cv) (cheight cv)])"
    by (intro exI [of _ "tb_canvas call'"] exI [of _ url]) (cases fmt; simp)
next
  assume "extractFrame e v m fmt c = Inr r'"
  then obtain call' wd' ht' where
    c: "capture e (VideoFrame (currentTime v)) (videoWidth v) (videoHeight v) m fmt c = Inr (call', wd', ht')"
    and t: "toBlob_callback e (call', wd', ht') = Inr r'"
    by (rule extractFrame_Inr)
  from capture_call [OF c] toBlob_callback_dims [OF t]
  show "\<exists>cv. toBlob e \<lparr>tb_canvas = cv, tb_mimeType = (case fmt of jpeg \<Rightarrow> ''image/jpeg'' | png \<Rightarrow> ''image/png''),
                             tb_quality = (case fmt of jpeg \<Rightarrow> Some (if c then 7 / 10 else 1) | png \<Rightarrow> None)\<rparr>
                       = Some (blob r')
           \<and> ops cv =
                (case fmt of
                   jpeg \<Rightarrow> [FillRect ''#FFFFFF'' 0 0 (cwidth cv) (cheight cv),
                            DrawImage (VideoFrame (currentTime v)) 0 0 (cwidth cv) (cheight cv)]
                 | png \<Rightarrow> [DrawImage (VideoFrame (currentTime v)) 0 0 (cwidth cv) (cheight cv)])"
    by (intro exI [of _ "tb_canvas call'"]) (cases fmt; simp)
qed


theorem jpeg_white_prefill_witness:
  "capture env0 (VideoFrame 0) 1280 720 720 jpeg True =
     Inr (\<lparr>tb_canvas = \<lparr>cwidth = 1280, cheight = 720, bitmapWidth = 1280, bitmapHeight = 720,
             ops = [FillRect ''#FFFFFF'' 0 0 1280 720, DrawImage (VideoFrame 0) 0 0 1280 720]\<rparr>,
           tb_mimeType = ''image/jpeg'', tb_quality = Some (7 / 10)\<rparr>, 1280, 720)
   \<and> resizeImage env0 file0 720 jpeg True = Inr \<lparr>blob = [1, 2, 3], width = 1280, height = 720\<rparr>
   \<and> extractFrame env0 video0 720 jpeg True = Inr \<lparr>blob = [1, 2, 3], width = 1280, height = 720\<rparr>
   \<and> (\<exists>cv. toBlob env0 \<lparr>tb_canvas = cv, tb_mimeType = ''image/jpeg'', tb_quality = Some (7 / 10)\<rparr>
               = Some [1, 2, 3]
          \<and> ops cv = [FillRect ''#FFFFFF'' 0 0 (cwidth cv) (cheight cv),
                       DrawImage (VideoFrame 0) 0 0 (cwidth cv) (cheight cv)])"
  using jpeg_white_prefill [of env0 "VideoFrame 0" 1280 720 720 jpeg True
     "\<lparr>tb_canvas = \<lparr>cwidth = 1280, cheight = 720, bitmapWidth = 1280, bitmapHeight = 720,
             ops = [FillRect ''#FFFFFF'' 0 0 1280 720, DrawImage (VideoFrame 0) 0 0 1280 720]\<rparr>,
           tb_mimeType = ''image/jpeg'', tb_quality = Some (7 / 10)\<rparr>" 1280 720
     file0 "\<lparr>blob = [1, 2, 3], width = 1280, height = 720\<rparr>" video0
     "\<lparr>blob = [1, 2, 3], width = 1280, height = 720\<rparr>"]
  by (simp add: resizeImage_env0 extractFrame_env0 capture_video0)
     (simp add: env0_def video0_def)


section \<open>The resizer's batch run\<close>

lemma run_Cons: "run st (ev # evs) = run (applyEvent st ev) evs"
  by (simp add: run_def)

lemma run_Nil: "run st [] = st"
  by (simp add: run_def)

lemma run_append: "run st (evs @ evs') = run (run st evs) evs'"
  by (simp add: run_def)

lemma files_set_files: "files (updateToolState st (no_change\<lparr>set_files := Some fs\<rparr>)) = fs"
  by (simp add: updateToolState_def no_change_def)

lemma length_processFrom: "length (processFrom e st i fs) = length fs"
  by (simp add: processFrom_def)

lemma nth_processFrom:
  "j < length fs \<Longrightarrow> processFrom e st i fs ! j = (if i \<le> j then processItem e st j (fs ! j) else fs ! j)"
  by (simp add: processFrom_def nth_enumerate_eq)

lemma processFrom_beyond: "length fs \<le> i \<Longrightarrow> processFrom e st i fs = fs"
  by (rule nth_equalityI) (simp_all add: length_processFrom nth_processFrom)

lemma originalFile_processedFile: "originalFile (processedFile st i f r) = originalFile f"
  by (simp add: processedFile_def Let_def)

lemma processFrom_step:
  assumes "i < length fs"
  shows "processFrom e st (Suc i) (fs[i := processItem e st i (fs ! i)]) = processFrom e st i fs"
proof (rule nth_equalityI)
  show "length (processFrom e st (Suc i) (fs[i := processItem e st i (fs ! i)])) = length (processFrom e st i fs)"
    by (simp add: length_processFrom)
next
  fix j
  assume "j < length (processFrom e st (Suc i) (fs[i := processItem e st i (fs ! i)]))"
  then have j: "j < length fs" by (simp add: length_processFrom)
  consider "j < i" | "j = i" | "i < j" by arith
  then show "processFrom e st (Suc i) (fs[i := processItem e st i (fs ! i)]) ! j = processFrom e st i fs ! j"
    using j by cases (simp_all add: nth_processFrom)
qed

lemma files_processLoop:
  "files s = fs \<Longrightarrow> files (run s (processLoop e st i fs)) = processFrom e st i fs"
proof (induction e st i fs arbitrary: s rule: processLoop.induct)
  case (1 e st i updatedFiles)
  show ?case
  proof (cases "i < length updatedFiles")
    case False
    then show ?thesis
      using "1.prems" by (simp add: processLoop.simps [of e st i updatedFiles] run_Nil processFrom_beyond)
  next
    case True
    let ?file = "updatedFiles ! i"
    show ?thesis
    proof (cases "resizeImage e (originalFile ?file) (resolution st) (outputFormat st) (compression st)")
      case (Inl err)
      have item: "processItem e st i ?file = ?file"
        by (simp add: processItem_def Inl)
      have "files (run s (processLoop e st (i + 1) updatedFiles)) = processFrom e st (i + 1) updatedFiles"
        using "1.IH"(1) [OF True refl Inl "1.prems"] .
      moreover have "processFrom e st (Suc i) updatedFiles = processFrom e st i updatedFiles"
        using processFrom_step [OF True, of e st] item by simp
      ultimately show ?thesis
        using True Inl by (simp add: processLoop.simps [of e st i updatedFiles] run_Cons)
    next
      case (Inr r)
      let ?uf = "updatedFiles[i := processedFile st i ?file r]"
      let ?s = "updateToolState s (no_change\<lparr>set_files := Some ?uf\<rparr>)"
      have item: "processItem e st i ?file = processedFile st i ?file r"
        by (simp add: processItem_def Inr)
      have "files ?s = ?uf" by (rule files_set_files)
      from "1.IH"(2) [OF True refl Inr refl this]
      have "files (run ?s (processLoop e st (i + 1) ?uf)) = processFrom e st (i + 1) ?uf" .
      moreover have "processFrom e st (Suc i) ?uf = processFrom e st i updatedFiles"
        using processFrom_step [OF True, of e st] item by simp
      ultimately show ?thesis
        using True Inr by (simp add: processLoop.simps [of e st i updatedFiles] run_Cons Let_def)
    qed
  qed
qed

lemma processLoop_touchesOnlyFiles: "list_all touchesOnlyFiles (processLoop e st i fs)"
proof (induction e st i fs rule: processLoop.induct)
  case (1 e st i updatedFiles)
  show ?case
  proof (cases "i < length updatedFiles")
    case False
    then show ?thesis by (simp add: processLoop.simps [of e st i updatedFiles])
  next
    case True
    show ?thesis
    proof (cases "resizeImage e (originalFile (updatedFiles ! i)) (resolution st) (outputFormat st) (compression st)")
      case (Inl err)
      with True "1.IH"(1) [OF True refl Inl] show ?thesis
        by (simp add: processLoop.simps [of e st i updatedFiles] touchesOnlyFiles_def)
    next
      case (Inr r)
      with True "1.IH"(2) [OF True refl Inr refl] show ?thesis
        by (simp add: processLoop.simps [of e st i updatedFiles] touchesOnlyFiles_def Let_def no_change_def)
    qed
  qed
qed

lemma applyEvent_touchesOnlyFiles:
  "touchesOnlyFiles ev \<Longrightarrow> applyEvent s ev = s\<lparr>files := files (applyEvent s ev)\<rparr>"
proof (cases ev)
  case (ChangeState p)
  assume "touchesOnlyFiles ev"
  with ChangeState have "p\<lparr>set_files := None\<rparr> = no_change" by (simp add: touchesOnlyFiles_def)
  then have "set_newName p = None" "set_resolution p = None" "set_outputFormat p = None"
    "set_compression p = None" "set_isProcessing p = None"
    by (cases p; simp add: no_change_def)+
  with ChangeState show ?thesis by (simp add: updateToolState_def)
qed simp_all

lemma run_touchesOnlyFiles:
  "list_all touchesOnlyFiles evs \<Longrightarrow> run s evs = s\<lparr>files := files (run s evs)\<rparr>"
proof (induction evs arbitrary: s)
  case Nil
  show ?case by (simp add: run_Nil)
next
  case (Cons ev evs)
  then have ev: "touchesOnlyFiles ev" and evs: "list_all touchesOnlyFiles evs" by simp_all
  let ?s = "applyEvent s ev"
  have "run s (ev # evs) = run ?s evs" by (simp add: run_Cons)
  also have "\<dots> = ?s\<lparr>files := files (run ?s evs)\<rparr>" by (rule Cons.IH [OF evs])
  also have "\<dots> = s\<lparr>files := files (run ?s evs)\<rparr>"
    by (subst applyEvent_touchesOnlyFiles [OF ev]) simp
  finally show ?case by (simp add: run_Cons)
qed

lemma isProcessing_run:
  assumes "list_all touchesOnlyFiles evs"
  shows "isProcessing (run s evs) = isProcessing s"
proof -
  have "isProcessing (run s evs) = isProcessing (s\<lparr>files := files (run s evs)\<rparr>)"
    using arg_cong [OF run_touchesOnlyFiles [OF assms], of isProcessing s] .
  then show ?thesis by simp
qed

lemma run_processLoop:
  "run s (processLoop e st i (files s)) = s\<lparr>files := processFrom e st i (files s)\<rparr>"
  using run_touchesOnlyFiles [OF processLoop_touchesOnlyFiles, of s e st i "files s"]
  by (simp add: files_processLoop)

lemma handleProcess_final:
  assumes "files st \<noteq> []"
  shows "run st (handleProcess e st) = st\<lparr>files := processFrom e st 0 (files st), isProcessing := False\<rparr>"
proof -
  let ?s1 = "updateToolState st (no_change\<lparr>set_isProcessing := Some True\<rparr>)"
  have s1: "?s1 = st\<lparr>isProcessing := True\<rparr>"
    by (simp add: updateToolState_def no_change_def)
  then have f1: "files ?s1 = files st" by simp
  have "run st (handleProcess e st)
      = updateToolState (run ?s1 (processLoop e st 0 (files ?s1))) (no_change\<lparr>set_isProcessing := Some False\<rparr>)"
    using assms by (simp add: handleProcess_def run_Cons run_append run_Nil f1)
  also have "run ?s1 (processLoop e st 0 (files ?s1)) = ?s1\<lparr>files := processFrom e st 0 (files ?s1)\<rparr>"
    by (rule run_processLoop)
  finally show ?thesis
    by (simp add: s1 updateToolState_def no_change_def)
qed

lemma handleProcess_during:
  assumes "0 < k" "k < length (handleProcess e st)"
  shows "isProcessing (run st (take k (handleProcess e st)))"
proof -
  from assms have ne: "length (files st) \<noteq> 0" by (auto simp: handleProcess_def split: if_splits)
  let ?s1 = "updateToolState st (no_change\<lparr>set_isProcessing := Some True\<rparr>)"
  let ?loop = "processLoop e st 0 (files st)"
  have s1: "isProcessing ?s1" by (simp add: updateToolState_def no_change_def)
  from assms ne have k: "k - 1 \<le> length ?loop" by (simp add: handleProcess_def)
  from assms ne k have "take k (handleProcess e st)
       = ChangeState (no_change\<lparr>set_isProcessing := Some True\<rparr>) # take (k - 1) ?loop"
    by (cases k) (simp_all add: handleProcess_def)
  then have "run st (take k (handleProcess e st)) = run ?s1 (take (k - 1) ?loop)"
    by (simp add: run_Cons)
  moreover have "list_all touchesOnlyFiles (take (k - 1) ?loop)"
    using processLoop_touchesOnlyFiles [of e st 0 "files st"]
    by (auto simp: list_all_iff dest: in_set_takeD)
  ultimately show ?thesis
    using isProcessing_run [of "take (k - 1) ?loop" ?s1] s1 by simp
qed

section \<open>The extractor's batch run\<close>

lemma frameAt_currentTime: "frameAt e st (v\<lparr>currentTime := t\<rparr>) = frameAt e st v"
  by (rule ext) (simp add: frameAt_def split: prod.splits)

lemma extractLoop_Cons:
  assumes "extractLoop e st (v\<lparr>currentTime := ts\<rparr>) (Suc i) tss
             (acc @ frameAt e st v (i, ts)) = (fs, evs)"
  shows "extractLoop e st v i (ts # tss) acc =
           (fs, Seek ts # (case extractFrame e (v\<lparr>currentTime := ts\<rparr>) (resolutionV st)
                                  (outputFormatV st) (compressionV st) of
                             Inr r \<Rightarrow> [] | Inl err \<Rightarrow> [ConsoleErrorAt ts err]) @ evs)"
  using assms by (simp add: frameAt_def Let_def split: sum.splits)

lemma fst_extractLoop:
  "fst (extractLoop e st v i tss acc) = acc @ concat (map (frameAt e st v) (enumerate i tss))"
proof (induction tss arbitrary: v i acc)
  case Nil
  show ?case by simp
next
  case (Cons ts tss)
  obtain fs evs where rec: "extractLoop e st (v\<lparr>currentTime := ts\<rparr>) (Suc i) tss
             (acc @ frameAt e st v (i, ts)) = (fs, evs)"
    by (cases "extractLoop e st (v\<lparr>currentTime := ts\<rparr>) (Suc i) tss (acc @ frameAt e st v (i, ts))")
  from Cons.IH [of "v\<lparr>currentTime := ts\<rparr>" "Suc i" "acc @ frameAt e st v (i, ts)"] rec
  have "fs = acc @ frameAt e st v (i, ts) @ concat (map (frameAt e st v) (enumerate (Suc i) tss))"
    by (simp add: frameAt_currentTime)
  then show ?case by (subst extractLoop_Cons [OF rec]) simp
qed

lemma seeks_append: "seeks (xs @ ys) = seeks xs @ seeks ys"
  by (induction xs rule: seeks.induct) simp_all

lemma seeks_extractLoop: "seeks (snd (extractLoop e st v i tss acc)) = tss"
proof (induction tss arbitrary: v i acc)
  case Nil
  show ?case by simp
next
  case (Cons ts tss)
  obtain fs evs where rec: "extractLoop e st (v\<lparr>currentTime := ts\<rparr>) (Suc i) tss
             (acc @ frameAt e st v (i, ts)) = (fs, evs)"
    by (cases "extractLoop e st (v\<lparr>currentTime := ts\<rparr>) (Suc i) tss (acc @ frameAt e st v (i, ts))")
  from Cons.IH [of "v\<lparr>currentTime := ts\<rparr>" "Suc i" "acc @ frameAt e st v (i, ts)"] rec
  have "seeks evs = tss" by simp
  then show ?case
    by (subst extractLoop_Cons [OF rec]) (simp add: seeks_append split: sum.splits)
qed

lemma quiet_extractLoop: "\<not> list_ex changesState (snd (extractLoop e st v i tss acc))"
proof (induction tss arbitrary: v i acc)
  case Nil
  show ?case by simp
next
  case (Cons ts tss)
  obtain fs evs where rec: "extractLoop e st (v\<lparr>currentTime := ts\<rparr>) (Suc i) tss
             (acc @ frameAt e st v (i, ts)) = (fs, evs)"
    by (cases "extractLoop e st (v\<lparr>currentTime := ts\<rparr>) (Suc i) tss (acc @ frameAt e st v (i, ts))")
  from Cons.IH [of "v\<lparr>currentTime := ts\<rparr>" "Suc i" "acc @ frameAt e st v (i, ts)"] rec
  have "\<not> list_ex changesState evs" by simp
  then show ?case
    by (subst extractLoop_Cons [OF rec]) (simp split: sum.splits)
qed

lemma runV_Cons: "runV st (ev # evs) = runV (applyEventV st ev) evs"
  by (simp add: runV_def)

lemma runV_Nil: "runV st [] = st"
  by (simp add: runV_def)

lemma runV_append: "runV st (evs @ evs') = runV (runV st evs) evs'"
  by (simp add: runV_def)

lemma applyEventV_quiet: "\<not> changesState ev \<Longrightarrow> applyEventV s ev = s"
  by (cases ev) simp_all

lemma runV_quiet: "\<not> list_ex changesState evs \<Longrightarrow> runV s evs = s"
  by (induction evs arbitrary: s) (simp_all add: runV_Nil runV_Cons applyEventV_quiet)

lemma quiet_revokes: "\<not> list_ex changesState (map (\<lambda>frame. RevokeObjectURL (previewUrlF frame)) fs)"
  by (induction fs) simp_all

lemma seeks_revokes: "seeks (map (\<lambda>frame. RevokeObjectURL (previewUrlF frame)) fs) = []"
  by (induction fs) simp_all

lemma handleProcessV_final:
  assumes "videoRef_current st element = Some v" and "markers st \<noteq> []"
  shows "runV st (handleProcessV e st element) =
           st\<lparr>extractedFrames := concat (map (frameAt e st v) (enumerate 0 (markers st))),
              isProcessingV := False, isPreviewCollapsed := True\<rparr>"
proof -
  obtain frames evs where loop: "extractLoop e st v 0 (markers st) [] = (frames, evs)"
    by (cases "extractLoop e st v 0 (markers st) []")
  from fst_extractLoop [of e st v 0 "markers st" "[]"] loop
  have frames: "frames = concat (map (frameAt e st v) (enumerate 0 (markers st)))" by simp
  from quiet_extractLoop [of e st v 0 "markers st" "[]"] loop
  have quiet: "\<not> list_ex changesState evs" by simp
  let ?s1 = "updateToolStateV st (no_changeV\<lparr>set_isProcessingV := Some True\<rparr>)"
  have "runV st (handleProcessV e st element) =
          updateToolStateV ?s1 (no_changeV\<lparr>set_extractedFrames := Some frames,
             set_isProcessingV := Some False, set_isPreviewCollapsed := Some True\<rparr>)"
    using assms loop
    by (simp add: handleProcessV_def runV_Cons runV_append runV_Nil
          runV_quiet [OF quiet] runV_quiet [OF quiet_revokes])
  then show ?thesis
    by (simp add: frames updateToolStateV_def no_changeV_def)
qed

lemma seeks_handleProcessV:
  "seeks (handleProcessV e st element) =
     (if videoRef_current st element = None then [] else markers st)"
proof (cases "videoRef_current st element")
  case None
  then show ?thesis by (simp add: handleProcessV_def)
next
  case (Some v)
  obtain frames evs where loop: "extractLoop e st v 0 (markers st) [] = (frames, evs)"
    by (cases "extractLoop e st v 0 (markers st) []")
  from seeks_extractLoop [of e st v 0 "markers st" "[]"] loop
  have "seeks evs = markers st" by simp
  with Some loop show ?thesis
    by (cases "markers st = []")
       (simp_all add: handleProcessV_def seeks_append seeks_revokes)
qed

section \<open>Running the resizer twice\<close>

lemma replace_ext_append:
  assumes "ext_match ext"
  shows "replace_ext (x @ ext) = x"
proof (induction x)
  case Nil
  from assms show ?case by (cases ext) simp_all
next
  case (Cons c x)
  from assms have "CHR ''.'' \<in> set (x @ ext)" by (cases ext) simp_all
  then have "\<not> ext_match (c # x @ ext)" by (auto simp: list_all_iff)
  with Cons show ?case by simp
qed

lemma replace_ext_newExtension: "replace_ext (x @ newExtension fmt) = x"
  by (rule replace_ext_append) (simp add: newExtension_def)

lemma processItem_config:
  assumes "newName st' = newName st" "resolution st' = resolution st"
    "outputFormat st' = outputFormat st" "compression st' = compression st"
  shows "processItem e st' = processItem e st"
  using assms by (intro ext) (simp add: processItem_def processedFile_def split: sum.splits)

lemma originalFile_processItem: "originalFile (processItem e st i f) = originalFile f"
  by (simp add: processItem_def originalFile_processedFile split: sum.splits)

lemma processItem_idem: "processItem e st i (processItem e st i f) = processItem e st i f"
proof (cases "resizeImage e (originalFile f) (resolution st) (outputFormat st) (compression st)")
  case (Inl err)
  then show ?thesis by (simp add: processItem_def)
next
  case (Inr r)
  then have "processItem e st i f = processedFile st i f r" by (simp add: processItem_def)
  moreover have "processItem e st i (processedFile st i f r)
                   = processedFile st i (processedFile st i f r) r"
    using Inr by (simp add: processItem_def originalFile_processedFile)
  moreover have "processedFile st i (processedFile st i f r) r = processedFile st i f r"
    by (simp add: processedFile_def Let_def replace_ext_newExtension)
  ultimately show ?thesis by simp
qed

lemma processFrom_idem: "processFrom e st 0 (processFrom e st 0 fs) = processFrom e st 0 fs"
  by (rule nth_equalityI) (simp_all add: length_processFrom nth_processFrom processItem_idem)

lemma handleProcess_twice:
  "run (run st (handleProcess e st)) (handleProcess e (run st (handleProcess e st)))
     = run st (handleProcess e st)"
proof (cases "files st = []")
  case True
  then show ?thesis by (simp add: handleProcess_def run_Nil)
next
  case False
  let ?st1 = "st\<lparr>files := processFrom e st 0 (files st), isProcessing := False\<rparr>"
  have st1: "run st (handleProcess e st) = ?st1" by (rule handleProcess_final [OF False])
  have ne: "files ?st1 \<noteq> []" using False length_processFrom [of e st 0 "files st"] by auto
  have "processItem e ?st1 = processItem e st"
    by (rule processItem_config) simp_all
  then have cfg: "processFrom e ?st1 0 = processFrom e st 0"
    by (intro ext) (simp add: processFrom_def)
  show ?thesis
    unfolding st1 handleProcess_final [OF ne]
    by (simp add: cfg processFrom_idem)
qed

lemma nth_files_handleProcess:
  assumes "i < length (files st)"
  shows "files (run st (handleProcess e st)) ! i = processItem e st i (files st ! i)"
proof -
  from assms have "files st \<noteq> []" by auto
  from handleProcess_final [OF this] assms show ?thesis
    by (simp add: nth_processFrom)
qed

text \<open>
  Claim C8. Running the resizer again on the state the first run left, under the same
  settings and on the same platform, yields the same processed width, height and byte
  size for every item (indeed the same file list), and what the second run stores for
  an item is the result of \<open>resizeImage\<close> on the item's original file, not on an
  earlier output.
\<close>

theorem reprocessing_idempotent:
  "(let st1 = run st (handleProcess e st); st2 = run st1 (handleProcess e st1)
    in map (\<lambda>f. (processedWidth f, processedHeight f, processedSize f)) (files st2)
         = map (\<lambda>f. (processedWidth f, processedHeight f, processedSize f)) (files st1)
       \<and> files st2 = files st1
       \<and> (i < length (files st)
            \<and> resizeImage e (originalFile (files st ! i)) (resolution st) (outputFormat st)
                 (compression st) = Inr r
          \<longrightarrow> processedBlob (files st2 ! i) = Some (blob r)
              \<and> processedWidth (files st2 ! i) = Some (width r)
              \<and> processedHeight (files st2 ! i) = Some (height r)
              \<and> processedSize (files st2 ! i) = Some (length (blob r))))"
proof -
  have "i < length (files st)
            \<and> resizeImage e (originalFile (files st ! i)) (resolution st) (outputFormat st)
                 (compression st) = Inr r
          \<longrightarrow> files (run st (handleProcess e st)) ! i = processedFile st i (files st ! i) r"
    by (simp add: nth_files_handleProcess processItem_def)
  then show ?thesis
    unfolding Let_def handleProcess_twice
    by (auto simp: processedFile_def Let_def)
qed

lemma resizeImage_file0: "resizeImage env0 file0 720 jpeg True = Inr r0"
  by (simp add: resizeImage_env0 r0_def)

lemma resizeImage_broken: "resizeImage env0 brokenFile 720 jpeg True = Inl ImageLoadError"
  by (simp add: resizeImage_def env0_def brokenFile_def)

lemma load_tall:
  "readAsDataURL env0 tallFile = Some ''tall.png''" "loadImage env0 ''tall.png'' = Some (2, 2000)"
  by (simp_all add: env0_def tallFile_def)

lemma resizeImage_tall_720: "resizeImage env0 tallFile 720 jpeg True = Inl ToBlobFailed"
  by (simp add: resizeImage_def load_tall capture_def Let_def toBlob_callback_def arith_tall
        canvas_sizes)
     (simp add: env0_def Math_round_numeral arith_odd arith_tall)

lemma resizeImage_tall_1080:
  "resizeImage env0 tallFile 1080 jpeg True = Inr \<lparr>blob = [1, 2, 3], width = 1, height = 1080\<rparr>"
  by (simp add: resizeImage_def load_tall capture_def Let_def toBlob_callback_def arith_tall
        canvas_sizes Math_round_numeral)
     (simp add: env0_def Math_round_numeral arith_odd arith_tall)

theorem reprocessing_idempotent_witness:
  "0 < length (files stA)
   \<and> resizeImage env0 (originalFile (files stA ! 0)) (resolution stA) (outputFormat stA)
        (compression stA) = Inr r0
   \<and> processedWidth (files (run (run stA (handleProcess env0 stA))
        (handleProcess env0 (run stA (handleProcess env0 stA)))) ! 0) = Some 1280
   \<and> processedSize (files (run (run stA (handleProcess env0 stA))
        (handleProcess env0 (run stA (handleProcess env0 stA)))) ! 0) = Some 3"
proof -
  have h: "0 < length (files stA)
     \<and> resizeImage env0 (originalFile (files stA ! 0)) (resolution stA) (outputFormat stA)
        (compression stA) = Inr r0"
    by (simp add: stA_def defaultResizerState_def newItem_def resizeImage_file0)
  from reprocessing_idempotent [of stA env0 0 r0] h
  have "processedWidth (files (run (run stA (handleProcess env0 stA))
          (handleProcess env0 (run stA (handleProcess env0 stA)))) ! 0) = Some (width r0)
     \<and> processedSize (files (run (run stA (handleProcess env0 stA))
          (handleProcess env0 (run stA (handleProcess env0 stA)))) ! 0) = Some (length (blob r0))"
    unfolding Let_def by blast
  with h show ?thesis by (simp add: r0_def)
qed

section \<open>Output names\<close>

text \<open>
  Claim C3, as the code has it. For an item at index \<open>i\<close> that the resizer processes
  successfully: when the trimmed base name is not empty, the new display name is the
  trimmed base name, a dash and \<open>i + 1\<close>; when it is empty and the item's display name
  still has the stem of the original file name, the new display name is that stem;
  each followed by \<open>.jpg\<close> for JPEG and \<open>.png\<close> for PNG. The extractor's frames are
  those of the markers whose extraction succeeds, and the frame of the marker at index
  \<open>k\<close> is named like the resizer's item when the base name is not empty, and
  \<open>frame-\<close> followed by \<open>k + 1\<close> when it is.
\<close>

theorem output_names:
  "(i < length (files st)
      \<and> resizeImage e (originalFile (files st ! i)) (resolution st) (outputFormat st)
           (compression st) = Inr r
      \<and> trim (newName st) \<noteq> []
    \<longrightarrow> displayName (files (run st (handleProcess e st)) ! i) =
          trim (newName st) @ ''-'' @ toString (i + 1)
          @ (case outputFormat st of jpeg \<Rightarrow> ''.jpg'' | png \<Rightarrow> ''.png''))
   \<and> (i < length (files st)
      \<and> resizeImage e (originalFile (files st ! i)) (resolution st) (outputFormat st)
           (compression st) = Inr r
      \<and> trim (newName st) = []
      \<and> replace_ext (displayName (files st ! i)) = replace_ext (name (originalFile (files st ! i)))
    \<longrightarrow> displayName (files (run st (handleProcess e st)) ! i) =
          replace_ext (name (originalFile (files st ! i)))
          @ (case outputFormat st of jpeg \<Rightarrow> ''.jpg'' | png \<Rightarrow> ''.png''))
   \<and> (videoRef_current stV element = Some v \<and> markers stV \<noteq> []
    \<longrightarrow> extractedFrames (runV stV (handleProcessV e stV element)) =
          concat (map (frameAt e stV v) (enumerate 0 (markers stV))))
   \<and> displayNameF (newFrame e stV k ts r') =
          (if trim (newNameV stV) \<noteq> [] then trim (newNameV stV) @ ''-'' @ toString (k + 1)
           else ''frame-'' @ toString (k + 1))
          @ (case outputFormatV stV of jpeg \<Rightarrow> ''.jpg'' | png \<Rightarrow> ''.png'')"
proof (intro conjI impI)
  assume "i < length (files st)
      \<and> resizeImage e (originalFile (files st ! i)) (resolution st) (outputFormat st)
           (compression st) = Inr r
      \<and> trim (newName st) \<noteq> []"
  then have "files (run st (handleProcess e st)) ! i = processedFile st i (files st ! i) r"
    and "trim (newName st) \<noteq> []"
    by (simp_all add: nth_files_handleProcess processItem_def)
  then show "displayName (files (run st (handleProcess e st)) ! i) =
          trim (newName st) @ ''-'' @ toString (i + 1)
          @ (case outputFormat st of jpeg \<Rightarrow> ''.jpg'' | png \<Rightarrow> ''.png'')"
    by (cases "outputFormat st") (simp_all add: processedFile_def Let_def newExtension_def)
next
  assume "i < length (files st)
      \<and> resizeImage e (originalFile (files st ! i)) (resolution st) (outputFormat st)
           (compression st) = Inr r
      \<and> trim (newName st) = []
      \<and> replace_ext (displayName (files st ! i)) = replace_ext (name (originalFile (files st ! i)))"
  then have "files (run st (handleProcess e st)) ! i = processedFile st i (files st ! i) r"
    and "trim (newName st) = []"
    and "replace_ext (displayName (files st ! i)) = replace_ext (name (originalFile (files st ! i)))"
    by (simp_all add: nth_files_handleProcess processItem_def)
  then show "displayName (files (run st (handleProcess e st)) ! i) =
          replace_ext (name (originalFile (files st ! i)))
          @ (case outputFormat st of jpeg \<Rightarrow> ''.jpg'' | png \<Rightarrow> ''.png'')"
    by (cases "outputFormat st") (simp_all add: processedFile_def Let_def newExtension_def)
next
  assume "videoRef_current stV element = Some v \<and> markers stV \<noteq> []"
  then show "extractedFrames (runV stV (handleProcessV e stV element)) =
          concat (map (frameAt e stV v) (enumerate 0 (markers stV)))"
    by (simp add: handleProcessV_final)
next
  show "displayNameF (newFrame e stV k ts r') =
          (if trim (newNameV stV) \<noteq> [] then trim (newNameV stV) @ ''-'' @ toString (k + 1)
           else ''frame-'' @ toString (k + 1))
          @ (case outputFormatV stV of jpeg \<Rightarrow> ''.jpg'' | png \<Rightarrow> ''.png'')"
    by (cases "outputFormatV stV") (simp_all add: newFrame_def Let_def newExtension_def)
qed

lemma extractFrame_video0:
  "extractFrame env0 (video0\<lparr>currentTime := t\<rparr>) 720 jpeg True = Inr r0"
  by (simp add: extractFrame_def video0_def capture_video0 toBlob_callback_def Math_round_numeral
        r0_def)
     (simp add: env0_def Math_round_numeral arith_odd arith_tall)

lemma toString_1: "toString (Suc 0) = ''1''"
  by (simp add: toString.simps digit_char_def)

lemma trim_empty: "trim [] = []"
  by (simp add: trim_def)

lemma videoRef_stV0: "videoRef_current stV0 video0 = Some video0"
  by (simp add: videoRef_current_def stV0_def defaultExtractorState_def)

lemma frames_stV0:
  "map displayNameF (extractedFrames (runV stV0 (handleProcessV env0 stV0 video0))) = [''frame-1.jpg'']"
proof -
  have m: "markers stV0 = [25 / 2]" "markers stV0 \<noteq> []"
    by (simp_all add: stV0_def defaultExtractorState_def)
  have cfg: "resolutionV stV0 = 720" "outputFormatV stV0 = jpeg" "compressionV stV0 = True"
    "newNameV stV0 = []"
    by (simp_all add: stV0_def defaultExtractorState_def)
  show ?thesis
    unfolding handleProcessV_final [OF videoRef_stV0 m(2)]
    by (simp add: m(1) frameAt_def cfg extractFrame_video0 newFrame_def Let_def trim_empty
          toString_1 newExtension_def)
qed

text \<open>
  With an empty base name the frame extracted from \<open>clip.mp4\<close> is named
  \<open>frame-1.jpg\<close>, not \<open>clip.jpg\<close>: claim C3 does not hold for the video variant
  as it is stated.
\<close>

theorem video_name_counterexample:
  "trim (newNameV stV0) = []
   \<and> videoFile stV0 = Some clip \<and> name clip = ''clip.mp4''
   \<and> map displayNameF (extractedFrames (runV stV0 (handleProcessV env0 stV0 video0)))
        = [''frame-1.jpg'']
   \<and> ''frame-1.jpg'' \<noteq> replace_ext ''clip.mp4'' @ ''.jpg''"
  by (simp add: frames_stV0) (simp add: stV0_def defaultExtractorState_def clip_def trim_empty)

lemma trim_trip: "trim '' trip '' = ''trip''"
  by (simp add: trim_def isWhiteSpace_def)

theorem output_names_witness:
  "0 < length (files stT)
   \<and> resizeImage env0 (originalFile (files stT ! 0)) (resolution stT) (outputFormat stT)
        (compression stT) = Inr r0
   \<and> trim (newName stT) \<noteq> []
   \<and> displayName (files (run stT (handleProcess env0 stT)) ! 0) = ''trip-1.jpg''
   \<and> 0 < length (files stA)
   \<and> resizeImage env0 (originalFile (files stA ! 0)) (resolution stA) (outputFormat stA)
        (compression stA) = Inr r0
   \<and> trim (newName stA) = []
   \<and> replace_ext (displayName (files stA ! 0)) = replace_ext (name (originalFile (files stA ! 0)))
   \<and> displayName (files (run stA (handleProcess env0 stA)) ! 0) = ''photo.jpg''
   \<and> videoRef_current stV0 video0 = Some video0 \<and> markers stV0 \<noteq> []
   \<and> extractedFrames (runV stV0 (handleProcessV env0 stV0 video0)) =
        concat (map (frameAt env0 stV0 video0) (enumerate 0 (markers stV0)))"
proof -
  have t: "0 < length (files stT)
     \<and> resizeImage env0 (originalFile (files stT ! 0)) (resolution stT) (outputFormat stT)
        (compression stT) = Inr r0
     \<and> trim (newName stT) \<noteq> []"
    by (simp add: stT_def defaultResizerState_def newItem_def resizeImage_file0 trim_trip)
  have h: "0 < length (files stA)
     \<and> resizeImage env0 (originalFile (files stA ! 0)) (resolution stA) (outputFormat stA)
        (compression stA) = Inr r0
     \<and> trim (newName stA) = []
     \<and> replace_ext (displayName (files stA ! 0)) = replace_ext (name (originalFile (files stA ! 0)))"
    by (simp add: stA_def defaultResizerState_def newItem_def resizeImage_file0 trim_empty)
  have hv: "videoRef_current stV0 video0 = Some video0 \<and> markers stV0 \<noteq> []"
    by (simp add: videoRef_stV0) (simp add: stV0_def defaultExtractorState_def)
  have n: "trim (newName stT) = ''trip''" "outputFormat stT = jpeg" "outputFormat stA = jpeg"
    "replace_ext (name (originalFile (files stA ! 0))) = ''photo''"
    by (simp_all add: stA_def stT_def defaultResizerState_def newItem_def file0_def trim_trip)
  from output_names [of 0 stT env0 r0 stV0 video0 video0] t
  have 1: "displayName (files (run stT (handleProcess env0 stT)) ! 0) = ''trip-1.jpg''"
    by (simp add: n toString_1)
  from output_names [of 0 stA env0 r0 stV0 video0 video0] h hv
  have 2: "displayName (files (run stA (handleProcess env0 stA)) ! 0) = ''photo.jpg''"
    "extractedFrames (runV stV0 (handleProcessV env0 stV0 video0)) =
        concat (map (frameAt env0 stV0 video0) (enumerate 0 (markers stV0)))"
    by (simp_all add: n)
  from t h hv 1 2 show ?thesis by simp
qed

text \<open>
  The resizer takes the stem from the display name, which an earlier run may have
  overwritten: \<open>photo.png\<close>, processed with the base name \<open>trip\<close> and then again with
  the base name cleared, is named \<open>trip-1.jpg\<close>, not \<open>photo.jpg\<close>.
\<close>

lemma renamed_item_keeps_new_stem:
  "map (\<lambda>f. name (originalFile f)) (files stT2) = [''photo.png'']
   \<and> trim (newName stT2) = []
   \<and> map displayName (files (run stT2 (handleProcess env0 stT2))) = [''trip-1.jpg'']"
proof -
  have neT: "files stT \<noteq> []" by (simp add: stT_def)
  have cfgT: "resolution stT = 720" "outputFormat stT = jpeg" "compression stT"
    "trim (newName stT) = ''trip''" "files stT = [newItem file0 1920 1080]"
    by (simp_all add: stT_def defaultResizerState_def trim_trip)
  let ?f = "(newItem file0 1920 1080)\<lparr>processedBlob := Some [1, 2, 3],
              processedWidth := Some 1280, processedHeight := Some 720,
              processedSize := Some 3, displayName := ''trip-1.jpg''\<rparr>"
  have item: "processItem env0 stT 0 (newItem file0 1920 1080) = ?f"
    by (simp add: processItem_def cfgT newItem_def resizeImage_file0 processedFile_def Let_def
          newExtension_def r0_def toString_1)
  have T2: "stT2 = \<lparr>files = [?f], newName = [], resolution = 720, outputFormat = jpeg,
                     compression = True, isProcessing = False\<rparr>"
    unfolding stT2_def handleProcess_final [OF neT]
    by (simp add: cfgT processFrom_def item updateToolState_def no_change_def)
  have ne2: "files stT2 \<noteq> []" by (simp add: T2)
  have "replace_ext ''trip-1.jpg'' = ''trip-1''" by simp
  then have item2: "displayName (processItem env0 stT2 0 ?f) = ''trip-1.jpg''"
    by (simp add: processItem_def T2 newItem_def resizeImage_file0 processedFile_def Let_def
          newExtension_def trim_empty)
  have "map displayName (files (run stT2 (handleProcess env0 stT2))) = [''trip-1.jpg'']"
    unfolding handleProcess_final [OF ne2]
    using item2 by (simp add: processFrom_def T2)
  then show ?thesis by (simp add: T2 newItem_def file0_def trim_empty)
qed

section \<open>A failed item on a second run of the resizer\<close>

text \<open>
  What the resizer stores for each item after a run: the new output when
  \<open>resizeImage\<close> succeeds, and whatever the item held before when it fails.
\<close>

lemma outputs_after_run:
  assumes "i < length (files st)"
  shows "processedBlob (files (run st (handleProcess e st)) ! i) =
           (case resizeImage e (originalFile (files st ! i)) (resolution st) (outputFormat st)
                   (compression st) of
              Inr r \<Rightarrow> Some (blob r)
            | Inl err \<Rightarrow> processedBlob (files st ! i))"
  using assms
  by (simp add: nth_files_handleProcess processItem_def processedFile_def Let_def split: sum.splits)

lemma flag_after_run: "files st \<noteq> [] \<Longrightarrow> \<not> isProcessing (run st (handleProcess e st))"
  by (simp add: handleProcess_final)

lemma stC_eq:
  "stC = \<lparr>files = [(newItem tallFile 2 2000)\<lparr>processedBlob := Some [1, 2, 3],
              processedWidth := Some 1, processedHeight := Some 1080,
              processedSize := Some 3, displayName := ''tall.jpg''\<rparr>],
           newName = [], resolution = 720, outputFormat = jpeg, compression = True,
           isProcessing = False\<rparr>"
proof -
  have ne: "files stB \<noteq> []" by (simp add: stB_def)
  have cfg: "resolution stB = 1080" "outputFormat stB = jpeg" "compression stB" "newName stB = []"
    "files stB = [newItem tallFile 2 2000]"
    by (simp_all add: stB_def defaultResizerState_def)
  have "replace_ext ''tall.png'' = ''tall''" by simp
  then have item: "processItem env0 stB 0 (newItem tallFile 2 2000)
      = (newItem tallFile 2 2000)\<lparr>processedBlob := Some [1, 2, 3],
              processedWidth := Some 1, processedHeight := Some 1080,
              processedSize := Some 3, displayName := ''tall.jpg''\<rparr>"
    by (simp add: processItem_def cfg newItem_def resizeImage_tall_1080 processedFile_def Let_def
          trim_empty newExtension_def)
       (simp add: tallFile_def)
  show ?thesis
    unfolding stC_def handleProcess_final [OF ne]
    by (simp add: cfg processFrom_def item updateToolState_def no_change_def)
qed

text \<open>
  Claim C2 says that an item whose processing fails is absent from the outputs of the
  run. In state \<open>stC\<close> the only item has an output of an earlier run at 1080; the run
  at 720 fails for it (the error is caught and logged, the flag is set and cleared), and
  the item still carries the old output and the old name, which is what the download
  would pack.
\<close>

theorem stale_output_after_failed_rerun:
  "resizeImage env0 (originalFile (files stC ! 0)) (resolution stC) (outputFormat stC)
      (compression stC) = Inl ToBlobFailed
   \<and> handleProcess env0 stC =
       [ChangeState (no_change\<lparr>set_isProcessing := Some True\<rparr>),
        ConsoleError ''Failed to process tall.jpg'' ToBlobFailed,
        ChangeState (no_change\<lparr>set_isProcessing := Some False\<rparr>)]
   \<and> map processedBlob (files (run stC (handleProcess env0 stC))) = [Some [1, 2, 3]]
   \<and> map displayName (filter (\<lambda>f. processedBlob f \<noteq> None) (files (run stC (handleProcess env0 stC))))
        = [''tall.jpg'']"
proof -
  have f: "resizeImage env0 (originalFile (files stC ! 0)) (resolution stC) (outputFormat stC)
      (compression stC) = Inl ToBlobFailed"
    by (simp add: stC_eq newItem_def resizeImage_tall_720)
  have evs: "handleProcess env0 stC =
       [ChangeState (no_change\<lparr>set_isProcessing := Some True\<rparr>),
        ConsoleError ''Failed to process tall.jpg'' ToBlobFailed,
        ChangeState (no_change\<lparr>set_isProcessing := Some False\<rparr>)]"
    by (simp add: handleProcess_def processLoop.simps stC_eq newItem_def resizeImage_tall_720)
  show ?thesis
    unfolding evs using f
    by (simp add: run_def updateToolState_def no_change_def) (simp add: stC_eq)
qed

section \<open>Processing without inputs\<close>

text \<open>
  Claim C10. With an empty file list the resizer's process handler, and with no video
  loaded, no mounted video element or an empty marker list the extractor's, returns
  without any event: no call of \<open>onChangeState\<close>, and the state is as before.
\<close>

theorem process_without_inputs:
  "(files st = [] \<longrightarrow> handleProcess e st = [] \<and> run st (handleProcess e st) = st)
   \<and> (videoUrl stV = None \<or> videoRef_current stV element = None \<or> markers stV = []
        \<longrightarrow> handleProcessV e stV element = []
            \<and> runV stV (handleProcessV e stV element) = stV)"
  by (auto simp: handleProcess_def handleProcessV_def run_def runV_def videoRef_current_def
        split: option.splits)

theorem process_without_inputs_witness:
  "files defaultResizerState = []
   \<and> handleProcess env0 defaultResizerState = []
   \<and> run defaultResizerState (handleProcess env0 defaultResizerState) = defaultResizerState
   \<and> videoUrl defaultExtractorState = None
   \<and> handleProcessV env0 defaultExtractorState video0 = []
   \<and> runV defaultExtractorState (handleProcessV env0 defaultExtractorState video0)
        = defaultExtractorState"
proof -
  have h: "files defaultResizerState = []" "videoUrl defaultExtractorState = None"
    by (simp_all add: defaultResizerState_def defaultExtractorState_def)
  from process_without_inputs [of defaultResizerState env0 defaultExtractorState video0] h
  show ?thesis by (simp add: run_def runV_def)
qed

section \<open>Reordering by drag and drop\<close>

lemma dragSort_valid:
  assumes "d < length xs" "t < length xs"
  shows "dragSort (Some d) (Some t) xs =
           Some (map Some (take t (take d xs @ drop (Suc d) xs) @ xs ! d
                             # drop t (take d xs @ drop (Suc d) xs)))"
proof -
  from assms(1) have "take 1 (drop d (map Some xs)) = [Some (xs ! d)]"
    by (simp add: take_Suc_conv_app_nth drop_map [symmetric] take_map [symmetric]
          hd_drop_conv_nth take_Suc)
  then show ?thesis
    by (simp add: dragSort_def splice_delete1_def splice_insert_def take_map drop_map)
qed

lemma dragSort_unset: "dragSort None t xs = None" "dragSort d None xs = None"
  by (simp_all add: dragSort_def split: option.splits)

lemma moved_list:
  assumes "d < length xs" "t < length xs"
  defines "rest \<equiv> take d xs @ drop (Suc d) xs"
  defines "ys \<equiv> take t rest @ xs ! d # drop t rest"
  shows "mset ys = mset xs" "ys ! t = xs ! d" "take t ys @ drop (Suc t) ys = rest"
proof -
  from assms(1) have len: "length rest = length xs - 1" by (simp add: rest_def)
  with assms have t: "t \<le> length rest" by simp
  have "mset (take t rest) + mset (drop t rest) = mset rest"
    by (metis append_take_drop_id mset_append)
  then have "mset ys = add_mset (xs ! d) (mset rest)"
    by (simp add: ys_def)
  also have "\<dots> = mset (take d xs @ xs ! d # drop (Suc d) xs)" by (simp add: rest_def)
  also have "\<dots> = mset xs" using id_take_nth_drop [OF assms(1)] by simp
  finally show "mset ys = mset xs" .
  from t show "ys ! t = xs ! d" by (simp add: ys_def nth_append)
  from t show "take t ys @ drop (Suc t) ys = rest" by (simp add: ys_def)
qed

text \<open>
  Claim C9. For every list and every pair of indices inside it, the list that
  \<open>handleDragSort\<close> passes on holds the same items (as a multiset), has the dragged
  item at the target index, and the other items in their old order; when either index
  is unset the handler returns without an update. Both tools.
\<close>

theorem drag_sort_permutation:
  "(d < length (files st) \<and> t < length (files st) \<longrightarrow>
      (\<exists>ys. handleDragSort (Some d) (Some t) st = Some (map Some ys)
         \<and> mset ys = mset (files st) \<and> ys ! t = files st ! d
         \<and> take t ys @ drop (Suc t) ys = take d (files st) @ drop (Suc d) (files st)))
   \<and> handleDragSort None x st = None \<and> handleDragSort y None st = None
   \<and> (d' < length (extractedFrames stV) \<and> t' < length (extractedFrames stV) \<longrightarrow>
      (\<exists>ys. handleDragSortV (Some d') (Some t') stV = Some (map Some ys)
         \<and> mset ys = mset (extractedFrames stV) \<and> ys ! t' = extractedFrames stV ! d'
         \<and> take t' ys @ drop (Suc t') ys
             = take d' (extractedFrames stV) @ drop (Suc d') (extractedFrames stV)))
   \<and> handleDragSortV None x stV = None \<and> handleDragSortV y None stV = None"
proof (intro conjI impI)
  assume a: "d < length (files st) \<and> t < length (files st)"
  then have d: "d < length (files st)" and t: "t < length (files st)" by simp_all
  show "\<exists>ys. handleDragSort (Some d) (Some t) st = Some (map Some ys)
         \<and> mset ys = mset (files st) \<and> ys ! t = files st ! d
         \<and> take t ys @ drop (Suc t) ys = take d (files st) @ drop (Suc d) (files st)"
    unfolding handleDragSort_def dragSort_valid [OF d t]
    using moved_list [OF d t] by blast
next
  assume a: "d' < length (extractedFrames stV) \<and> t' < length (extractedFrames stV)"
  then have d: "d' < length (extractedFrames stV)" and t: "t' < length (extractedFrames stV)"
    by simp_all
  show "\<exists>ys. handleDragSortV (Some d') (Some t') stV = Some (map Some ys)
         \<and> mset ys = mset (extractedFrames stV) \<and> ys ! t' = extractedFrames stV ! d'
         \<and> take t' ys @ drop (Suc t') ys
             = take d' (extractedFrames stV) @ drop (Suc d') (extractedFrames stV)"
    unfolding handleDragSortV_def dragSort_valid [OF d t]
    using moved_list [OF d t] by blast
qed (simp_all add: handleDragSort_def handleDragSortV_def dragSort_unset)

theorem drag_sort_permutation_witness:
  "(0::nat) < length (files stA) \<and> (2::nat) < length (files stA)
   \<and> handleDragSort (Some 0) (Some 2) stA
       = Some (map Some [newItem brokenFile 10 10, newItem tallFile 2 2000, newItem file0 1920 1080])
   \<and> (1::nat) < length (extractedFrames stVF) \<and> (0::nat) < length (extractedFrames stVF)
   \<and> (\<exists>ys. handleDragSortV (Some 1) (Some 0) stVF = Some (map Some ys)
          \<and> mset ys = mset (extractedFrames stVF))"
proof -
  have h: "(0::nat) < length (files stA) \<and> (2::nat) < length (files stA)"
    "(1::nat) < length (extractedFrames stVF) \<and> (0::nat) < length (extractedFrames stVF)"
    by (simp_all add: stA_def stVF_def)
  from drag_sort_permutation [of 0 stA 2 None None 1 stVF 0] h
  have "\<exists>ys. handleDragSortV (Some 1) (Some 0) stVF = Some (map Some ys)
          \<and> mset ys = mset (extractedFrames stVF)"
    by blast
  moreover have "handleDragSort (Some 0) (Some 2) stA
       = Some (map Some [newItem brokenFile 10 10, newItem tallFile 2 2000, newItem file0 1920 1080])"
    by (simp add: handleDragSort_def dragSort_def splice_delete1_def splice_insert_def stA_def)
  ultimately show ?thesis using h by simp
qed

section \<open>The marker list\<close>

lemma sort_snoc:
  assumes "sorted ms"
  shows "sort (ms @ [t]) = insort t ms"
  by (rule properties_for_sort) (simp_all add: assms sorted_insort)

lemma markers_updateToolStateV:
  "markers (updateToolStateV st p) = (case set_markers p of Some ms \<Rightarrow> ms | None \<Rightarrow> markers st)"
  by (simp add: updateToolStateV_def)

lemma markers_add:
  assumes "handleAddMarker t st = Some p"
  shows "t \<notin> set (markers st)" "markers (updateToolStateV st p) = sort (markers st @ [t])"
  using assms
  by (auto simp: handleAddMarker_def markers_updateToolStateV no_changeV_def split: if_splits)

lemma markers_remove:
  "markers (updateToolStateV st (handleRemoveMarker t st)) = filter (\<lambda>m. m \<noteq> t) (markers st)"
  by (simp add: handleRemoveMarker_def markers_updateToolStateV no_changeV_def)

lemma markers_reset: "markers (runV st (handleReset st)) = []"
proof -
  have "runV st (handleReset st) = updateToolStateV st resetPatch"
    by (simp add: handleReset_def runV_append runV_quiet [OF quiet_revokes] runV_Cons runV_Nil)
  then show ?thesis
    by (simp add: markers_updateToolStateV resetPatch_def defaultExtractorState_def)
qed

lemma reachable_markers: "reachable st \<Longrightarrow> sorted (markers st) \<and> distinct (markers st)"
proof (induction rule: reachable.induct)
  case initial
  show ?case by (simp add: defaultExtractorState_def)
next
  case (add st t p)
  from markers_add [OF add.hyps(2)] add.IH show ?case
    by (simp add: sort_snoc sorted_insort distinct_insort)
next
  case (remove st t)
  then show ?case by (simp add: markers_remove sorted_wrt_filter)
next
  case (reset st)
  show ?case by (simp add: markers_reset)
next
  case (other st p)
  then show ?case by (simp add: markers_updateToolStateV)
qed

text \<open>
  Claim C5. In every state the extractor can reach, the marker list is strictly
  ascending, hence free of duplicates. Adding a timestamp that is present returns
  without an update; adding a new one in a reachable state inserts it in order;
  removing a timestamp filters the list and keeps it ascending; and the processing run
  seeks the markers in the order of the list.
\<close>

theorem markers_ascending_distinct:
  "(reachable st \<longrightarrow> sorted_wrt (<) (markers st))
   \<and> (t \<in> set (markers st) \<longrightarrow> handleAddMarker t st = None)
   \<and> (reachable st \<and> t \<notin> set (markers st) \<longrightarrow>
        (\<exists>p. handleAddMarker t st = Some p
           \<and> markers (updateToolStateV st p) = insort t (markers st)
           \<and> sorted_wrt (<) (markers (updateToolStateV st p))
           \<and> set (markers (updateToolStateV st p)) = insert t (set (markers st))))
   \<and> markers (updateToolStateV st (handleRemoveMarker t st)) = filter (\<lambda>m. m \<noteq> t) (markers st)
   \<and> (reachable st \<longrightarrow> sorted_wrt (<) (markers (updateToolStateV st (handleRemoveMarker t st))))
   \<and> seeks (handleProcessV e st element) =
        (if videoRef_current st element = None then [] else markers st)"
proof (intro conjI impI)
  assume "reachable st"
  then show "sorted_wrt (<) (markers st)"
    by (simp add: strict_sorted_iff reachable_markers)
next
  assume "t \<in> set (markers st)"
  then show "handleAddMarker t st = None" by (simp add: handleAddMarker_def)
next
  assume a: "reachable st \<and> t \<notin> set (markers st)"
  let ?p = "no_changeV\<lparr>set_markers := Some (sort (markers st @ [t]))\<rparr>"
  from a have p: "handleAddMarker t st = Some ?p" by (simp add: handleAddMarker_def)
  from a have s: "sorted (markers st)" "distinct (markers st)" by (simp_all add: reachable_markers)
  have m: "markers (updateToolStateV st ?p) = insort t (markers st)"
    using markers_add(2) [OF p] by (simp add: sort_snoc [OF s(1)])
  from a have "reachable (updateToolStateV st ?p)" using reachable.add [OF _ p] by simp
  then have "sorted_wrt (<) (markers (updateToolStateV st ?p))"
    by (simp add: strict_sorted_iff reachable_markers)
  with p m show "\<exists>p. handleAddMarker t st = Some p
           \<and> markers (updateToolStateV st p) = insort t (markers st)
           \<and> sorted_wrt (<) (markers (updateToolStateV st p))
           \<and> set (markers (updateToolStateV st p)) = insert t (set (markers st))"
    by (intro exI [of _ ?p]) (simp add: set_insort_key)
next
  show "markers (updateToolStateV st (handleRemoveMarker t st)) = filter (\<lambda>m. m \<noteq> t) (markers st)"
    by (rule markers_remove)
next
  assume "reachable st"
  then have "reachable (updateToolStateV st (handleRemoveMarker t st))" by (rule reachable.remove)
  then show "sorted_wrt (<) (markers (updateToolStateV st (handleRemoveMarker t st)))"
    by (simp add: strict_sorted_iff reachable_markers)
next
  show "seeks (handleProcessV e st element) =
        (if videoRef_current st element = None then [] else markers st)"
    by (rule seeks_handleProcessV)
qed

lemma reachable_addMarker: "reachable st \<Longrightarrow> reachable (addMarker t st)"
  by (auto simp: addMarker_def intro: reachable.add split: option.splits)

lemma reachable_stLoaded: "reachable stLoaded"
  unfolding stLoaded_def
  by (rule reachable.other [OF reachable.initial]) (simp add: no_changeV_def)

lemma markers_stM1: "markers stM1 = [30]"
  by (simp add: stM1_def addMarker_def handleAddMarker_def stLoaded_def updateToolStateV_def
        no_changeV_def defaultExtractorState_def)

lemma markers_stM2: "markers stM2 = [25 / 2, 30]"
  by (simp add: stM2_def addMarker_def handleAddMarker_def markers_stM1 updateToolStateV_def
        no_changeV_def)

lemma videoRef_stM2: "videoRef_current stM2 video0 = Some video0"
  by (simp add: videoRef_current_def stM2_def stM1_def addMarker_def handleAddMarker_def
        stLoaded_def updateToolStateV_def no_changeV_def defaultExtractorState_def)

theorem markers_ascending_distinct_witness:
  "reachable stM1 \<and> (25 / 2) \<notin> set (markers stM1)
   \<and> (\<exists>p. handleAddMarker (25 / 2) stM1 = Some p
          \<and> markers (updateToolStateV stM1 p) = [25 / 2, 30])
   \<and> reachable stM2 \<and> (25 / 2) \<in> set (markers stM2)
   \<and> handleAddMarker (25 / 2) stM2 = None
   \<and> sorted_wrt (<) (markers stM2)
   \<and> seeks (handleProcessV env0 stM2 video0) = [25 / 2, 30]"
proof -
  have r1: "reachable stM1" unfolding stM1_def
    by (rule reachable_addMarker [OF reachable_stLoaded])
  then have r2: "reachable stM2" unfolding stM2_def by (rule reachable_addMarker)
  have n: "(25 / 2) \<notin> set (markers stM1)" "(25 / 2) \<in> set (markers stM2)"
    by (simp_all add: markers_stM1 markers_stM2)
  from markers_ascending_distinct [of stM1 "25 / 2" env0 video0] r1 n(1)
  have a: "\<exists>p. handleAddMarker (25 / 2) stM1 = Some p
          \<and> markers (updateToolStateV stM1 p) = insort (25 / 2) (markers stM1)"
    by blast
  from markers_ascending_distinct [of stM2 "25 / 2" env0 video0] r2 n(2)
  have b: "handleAddMarker (25 / 2) stM2 = None" "sorted_wrt (<) (markers stM2)"
    "seeks (handleProcessV env0 stM2 video0) =
        (if videoRef_current stM2 video0 = None then [] else markers stM2)"
    by blast+
  from a have "\<exists>p. handleAddMarker (25 / 2) stM1 = Some p
          \<and> markers (updateToolStateV stM1 p) = [25 / 2, 30]"
    by (simp add: markers_stM1)
  with r1 r2 n b show ?thesis
    by (simp add: videoRef_stM2 markers_stM2)
qed

section \<open>The archive\<close>

lemma map_of_put: "map_of (put n obj zs) = (map_of zs)(n \<mapsto> obj)"
  by (induction zs) (auto simp: fun_eq_iff)

lemma names_put:
  "map fst (put n obj zs) = (if n \<in> fst ` set zs then map fst zs else map fst zs @ [n])"
  by (induction zs) (force simp: image_iff)+

lemma keys_put: "fst ` set (put n obj zs) = insert n (fst ` set zs)"
proof -
  have "fst ` set (put n obj zs) = set (map fst (put n obj zs))" by simp
  also have "\<dots> = insert n (fst ` set zs)"
    unfolding names_put by auto
  finally show ?thesis .
qed

lemma distinct_put: "distinct (map fst zs) \<Longrightarrow> distinct (map fst (put n obj zs))"
  by (simp add: names_put)

lemma put_fresh: "n \<notin> fst ` set zs \<Longrightarrow> put n obj zs = zs @ [(n, obj)]"
  by (induction zs) auto

lemma forceTrailingSlash_idem [simp]:
  "forceTrailingSlash (forceTrailingSlash p) = forceTrailingSlash p"
  by (simp add: forceTrailingSlash_def)

lemma folders_parent:
  "parentFolder p \<noteq> [] \<Longrightarrow>
     folders p = forceTrailingSlash (parentFolder p) # folders (forceTrailingSlash (parentFolder p))"
  "parentFolder p = [] \<Longrightarrow> folders p = []"
  by (simp_all add: folders.simps [of p] Let_def)

lemma fileAdd_folderAdd_props:
  "closed zfiles \<Longrightarrow> distinct (map fst zfiles) \<Longrightarrow>
     (let fname' = (if dir then forceTrailingSlash fname else fname);
          object = (if dir then Folder else FileData (case data of Some b \<Rightarrow> b | None \<Rightarrow> []))
      in closed (fileAdd fname data dir zfiles)
       \<and> distinct (map fst (fileAdd fname data dir zfiles))
       \<and> map_of (fileAdd fname data dir zfiles) =
           (\<lambda>k. if k = fname' then Some object
                else if k \<in> set (folders fname') then keep zfiles k else map_of zfiles k))"
  "closed zfiles \<Longrightarrow> distinct (map fst zfiles) \<Longrightarrow>
     closed (folderAdd fname zfiles)
     \<and> distinct (map fst (folderAdd fname zfiles))
     \<and> map_of (folderAdd fname zfiles) =
         (\<lambda>k. if k = forceTrailingSlash fname \<or> k \<in> set (folders (forceTrailingSlash fname))
              then keep zfiles k else map_of zfiles k)"
proof (induction fname data dir zfiles and fname zfiles rule: fileAdd_folderAdd.induct)
  case (1 fname data dir zfiles)
  define fname' where "fname' = (if dir then forceTrailingSlash fname else fname)"
  define object where
    "object = (if dir then Folder else FileData (case data of Some b \<Rightarrow> b | None \<Rightarrow> []))"
  define zfiles' where
    "zfiles' = (if parentFolder fname' \<noteq> [] then folderAdd (parentFolder fname') zfiles else zfiles)"
  have eq: "fileAdd fname data dir zfiles = put fname' object zfiles'"
    by (simp add: fileAdd.simps [of fname] Let_def fname'_def object_def zfiles'_def)
  have f': "closed zfiles' \<and> distinct (map fst zfiles')
     \<and> map_of zfiles' = (\<lambda>k. if k \<in> set (folders fname') then keep zfiles k else map_of zfiles k)"
  proof (cases "parentFolder fname' = []")
    case True
    with "1.prems" show ?thesis by (simp add: zfiles'_def folders_parent)
  next
    case False
    from "1.IH" [OF fname'_def refl False "1.prems"] False
    show ?thesis by (simp add: zfiles'_def folders_parent fun_eq_iff)
  qed
  have sub: "set (folders fname') \<subseteq> fst ` set zfiles'"
  proof
    fix k assume "k \<in> set (folders fname')"
    with f' have "map_of zfiles' k \<noteq> None" by (simp add: keep_def split: option.splits)
    then show "k \<in> fst ` set zfiles'" by (simp add: map_of_eq_None_iff)
  qed
  have "closed (put fname' object zfiles')"
    using f' sub unfolding closed_def keys_put by auto
  moreover have "distinct (map fst (put fname' object zfiles'))"
    using f' by (simp add: distinct_put)
  moreover have "map_of (put fname' object zfiles') =
      (\<lambda>k. if k = fname' then Some object
           else if k \<in> set (folders fname') then keep zfiles k else map_of zfiles k)"
    using f' by (simp add: map_of_put fun_eq_iff)
  ultimately show ?case unfolding eq Let_def fname'_def [symmetric] object_def [symmetric] by simp
next
  case (2 fname zfiles)
  define fname' where "fname' = forceTrailingSlash fname"
  show ?case
  proof (cases "map_of zfiles fname' = None")
    case True
    then have eq: "folderAdd fname zfiles = fileAdd fname' None True zfiles"
      by (simp add: folderAdd.simps [of fname] Let_def fname'_def)
    from "2.IH" [OF fname'_def True "2.prems"] True
    show ?thesis unfolding eq by (simp add: Let_def fname'_def fun_eq_iff keep_def)
  next
    case False
    then have eq: "folderAdd fname zfiles = zfiles"
      by (auto simp: folderAdd.simps [of fname] Let_def fname'_def)
    from False have k: "fname' \<in> fst ` set zfiles" by (simp add: map_of_eq_None_iff)
    with "2.prems" have "set (folders fname') \<subseteq> fst ` set zfiles" by (auto simp: closed_def)
    then have "k \<in> set (folders fname') \<Longrightarrow> map_of zfiles k \<noteq> None" for k
      by (auto simp: map_of_eq_None_iff)
    with False have "keep zfiles k = map_of zfiles k" if "k = fname' \<or> k \<in> set (folders fname')" for k
      using that by (auto simp: keep_def split: option.splits)
    with "2.prems" show ?thesis unfolding eq fname'_def [symmetric] by (auto simp: fun_eq_iff)
  qed
qed


lemma closed_Nil: "closed []"
  by (simp add: closed_def)

lemma zip_file_props:
  assumes "closed zfiles" "distinct (map fst zfiles)"
  shows "closed (zip_file fname data zfiles)"
    and "distinct (map fst (zip_file fname data zfiles))"
    and "map_of (zip_file fname data zfiles) =
           (\<lambda>k. if k = fname then Some (FileData (case data of Some b \<Rightarrow> b | None \<Rightarrow> []))
                else if k \<in> set (folders fname) then keep zfiles k else map_of zfiles k)"
  using fileAdd_folderAdd_props(1) [OF assms, of False fname data]
  by (simp_all add: zip_file_def Let_def)

lemma zip_file_plain:
  "parentFolder fname = [] \<Longrightarrow>
     zip_file fname data zfiles =
       put fname (FileData (case data of Some b \<Rightarrow> b | None \<Rightarrow> [])) zfiles"
  by (simp add: zip_file_def fileAdd.simps [of fname] Let_def)

lemma foldl_zip_file:
  fixes nm :: "'a \<Rightarrow> string" and dt :: "'a \<Rightarrow> Blob option"
  defines "add \<equiv> (\<lambda>zs x. zip_file (nm x) (dt x) zs)"
  shows "closed (foldl add [] xs)"
    and "distinct (map fst (foldl add [] xs))"
    and "map_of (foldl add [] xs) =
           (\<lambda>n. case map_of (rev (map (\<lambda>x. (nm x, stored (dt x))) xs)) n of
                  Some d \<Rightarrow> Some d
                | None \<Rightarrow> if n \<in> (\<Union>x \<in> set xs. set (folders (nm x))) then Some Folder else None)"
proof -
  have "closed (foldl add [] xs) \<and> distinct (map fst (foldl add [] xs))
    \<and> map_of (foldl add [] xs) =
           (\<lambda>n. case map_of (rev (map (\<lambda>x. (nm x, stored (dt x))) xs)) n of
                  Some d \<Rightarrow> Some d
                | None \<Rightarrow> if n \<in> (\<Union>x \<in> set xs. set (folders (nm x))) then Some Folder else None)"
  proof (induction xs rule: rev_induct)
    case Nil
    show ?case by (simp add: closed_Nil fun_eq_iff)
  next
    case (snoc y ys)
    define zs where "zs = foldl add [] ys"
    from snoc have zs: "closed zs" "distinct (map fst zs)" by (simp_all add: zs_def)
    have eq: "foldl add [] (ys @ [y]) = zip_file (nm y) (dt y) zs"
      by (simp add: add_def zs_def)
    from snoc have m: "map_of zs =
           (\<lambda>n. case map_of (rev (map (\<lambda>x. (nm x, stored (dt x))) ys)) n of
                  Some d \<Rightarrow> Some d
                | None \<Rightarrow> if n \<in> (\<Union>x \<in> set ys. set (folders (nm x))) then Some Folder else None)"
      by (simp add: zs_def)
    have "map_of (zip_file (nm y) (dt y) zs) n =
           (case map_of (rev (map (\<lambda>x. (nm x, stored (dt x))) (ys @ [y]))) n of
                  Some d \<Rightarrow> Some d
                | None \<Rightarrow> if n \<in> (\<Union>x \<in> set (ys @ [y]). set (folders (nm x))) then Some Folder else None)"
      for n
    proof -
      have new: "map_of (rev (map (\<lambda>x. (nm x, stored (dt x))) (ys @ [y]))) n =
          (if n = nm y then Some (stored (dt y))
           else map_of (rev (map (\<lambda>x. (nm x, stored (dt x))) ys)) n)"
        by simp
      have mz: "map_of zs n =
          (case map_of (rev (map (\<lambda>x. (nm x, stored (dt x))) ys)) n of
                  Some d \<Rightarrow> Some d
                | None \<Rightarrow> if n \<in> (\<Union>x \<in> set ys. set (folders (nm x))) then Some Folder else None)"
        using m by simp
      show ?thesis
        unfolding zip_file_props(3) [OF zs] new keep_def mz
        by (auto simp: stored_def split: option.splits)
    qed
    then have "map_of (zip_file (nm y) (dt y) zs) =
           (\<lambda>n. case map_of (rev (map (\<lambda>x. (nm x, stored (dt x))) (ys @ [y]))) n of
                  Some d \<Rightarrow> Some d
                | None \<Rightarrow> if n \<in> (\<Union>x \<in> set (ys @ [y]). set (folders (nm x))) then Some Folder else None)"
      by (simp only: fun_eq_iff) simp
    with zip_file_props(1,2) [OF zs] show ?case unfolding eq by simp
  qed
  then show "closed (foldl add [] xs)"
    and "distinct (map fst (foldl add [] xs))"
    and "map_of (foldl add [] xs) =
           (\<lambda>n. case map_of (rev (map (\<lambda>x. (nm x, stored (dt x))) xs)) n of
                  Some d \<Rightarrow> Some d
                | None \<Rightarrow> if n \<in> (\<Union>x \<in> set xs. set (folders (nm x))) then Some Folder else None)"
    by simp_all
qed

lemma keys_foldl_zip_file:
  fixes nm :: "'a \<Rightarrow> string" and dt :: "'a \<Rightarrow> Blob option"
  shows "fst ` set (foldl (\<lambda>zs x. zip_file (nm x) (dt x) zs) [] xs)
           = nm ` set xs \<union> (\<Union>x \<in> set xs. set (folders (nm x)))"
proof -
  define zs where "zs = foldl (\<lambda>zs x. zip_file (nm x) (dt x) zs) [] xs"
  have "fst ` set zs = dom (map_of zs)" by (simp add: dom_map_of_conv_image_fst)
  also have "\<dots> = {n. map_of (rev (map (\<lambda>x. (nm x, stored (dt x))) xs)) n \<noteq> None}
                    \<union> (\<Union>x \<in> set xs. set (folders (nm x)))"
    unfolding zs_def foldl_zip_file(3) by (auto simp: dom_def split: option.splits if_splits)
  also have "{n. map_of (rev (map (\<lambda>x. (nm x, stored (dt x))) xs)) n \<noteq> None} = nm ` set xs"
    by (force simp: map_of_eq_None_iff image_iff)
  finally show ?thesis unfolding zs_def .
qed

lemma foldl_zip_file_plain:
  fixes nm :: "'a \<Rightarrow> string" and dt :: "'a \<Rightarrow> Blob option"
  assumes "distinct (map nm xs)" "\<forall>x \<in> set xs. parentFolder (nm x) = []"
  shows "foldl (\<lambda>zs x. zip_file (nm x) (dt x) zs) [] xs = map (\<lambda>x. (nm x, stored (dt x))) xs"
  using assms
proof (induction xs rule: rev_induct)
  case Nil
  show ?case by simp
next
  case (snoc y ys)
  then have IH: "foldl (\<lambda>zs x. zip_file (nm x) (dt x) zs) [] ys = map (\<lambda>x. (nm x, stored (dt x))) ys"
    by simp
  from snoc.prems have "nm y \<notin> nm ` set ys" "parentFolder (nm y) = []" by simp_all
  then show ?case
    by (simp add: IH zip_file_plain put_fresh stored_def image_image)
qed

lemma zipEntries_props:
  "distinct (map fst (zipEntries fs))"
  "fst ` set (zipEntries fs) = displayName ` set fs \<union> (\<Union>f \<in> set fs. set (folders (displayName f)))"
  "map_of (zipEntries fs) =
     (\<lambda>n. case map_of (rev (map entryOf fs)) n of
            Some d \<Rightarrow> Some d
          | None \<Rightarrow> if n \<in> (\<Union>f \<in> set fs. set (folders (displayName f))) then Some Folder
                    else None)"
  "distinct (map displayName fs) \<and> (\<forall>f \<in> set fs. parentFolder (displayName f) = [])
     \<Longrightarrow> zipEntries fs = map entryOf fs"
proof -
  have e: "entryOf = (\<lambda>f. (displayName f, stored (processedBlob f)))"
    by (simp add: fun_eq_iff entryOf_def)
  show "distinct (map fst (zipEntries fs))"
    unfolding zipEntries_def by (rule foldl_zip_file(2))
  show "fst ` set (zipEntries fs) = displayName ` set fs \<union> (\<Union>f \<in> set fs. set (folders (displayName f)))"
    unfolding zipEntries_def by (rule keys_foldl_zip_file)
  show "map_of (zipEntries fs) =
     (\<lambda>n. case map_of (rev (map entryOf fs)) n of
            Some d \<Rightarrow> Some d
          | None \<Rightarrow> if n \<in> (\<Union>f \<in> set fs. set (folders (displayName f))) then Some Folder
                    else None)"
    unfolding zipEntries_def e by (rule foldl_zip_file(3))
  show "zipEntries fs = map entryOf fs"
    if "distinct (map displayName fs) \<and> (\<forall>f \<in> set fs. parentFolder (displayName f) = [])"
    unfolding zipEntries_def e using that by (intro foldl_zip_file_plain) simp_all
qed

lemma zipEntriesV_props:
  "distinct (map fst (zipEntriesV fs))"
  "fst ` set (zipEntriesV fs) = displayNameF ` set fs \<union> (\<Union>f \<in> set fs. set (folders (displayNameF f)))"
  "map_of (zipEntriesV fs) =
     (\<lambda>n. case map_of (rev (map entryOfV fs)) n of
            Some d \<Rightarrow> Some d
          | None \<Rightarrow> if n \<in> (\<Union>f \<in> set fs. set (folders (displayNameF f))) then Some Folder
                    else None)"
  "distinct (map displayNameF fs) \<and> (\<forall>f \<in> set fs. parentFolder (displayNameF f) = [])
     \<Longrightarrow> zipEntriesV fs = map entryOfV fs"
proof -
  have e: "entryOfV = (\<lambda>f. (displayNameF f, stored (processedBlobF f)))"
    by (simp add: fun_eq_iff entryOfV_def)
  show "distinct (map fst (zipEntriesV fs))"
    unfolding zipEntriesV_def by (rule foldl_zip_file(2))
  show "fst ` set (zipEntriesV fs) = displayNameF ` set fs \<union> (\<Union>f \<in> set fs. set (folders (displayNameF f)))"
    unfolding zipEntriesV_def by (rule keys_foldl_zip_file)
  show "map_of (zipEntriesV fs) =
     (\<lambda>n. case map_of (rev (map entryOfV fs)) n of
            Some d \<Rightarrow> Some d
          | None \<Rightarrow> if n \<in> (\<Union>f \<in> set fs. set (folders (displayNameF f))) then Some Folder
                    else None)"
    unfolding zipEntriesV_def e by (rule foldl_zip_file(3))
  show "zipEntriesV fs = map entryOfV fs"
    if "distinct (map displayNameF fs) \<and> (\<forall>f \<in> set fs. parentFolder (displayNameF f) = [])"
    unfolding zipEntriesV_def e using that by (intro foldl_zip_file_plain) simp_all
qed

text \<open>
  Claim C6, as the code has it. With no processed item (resizer) or no frame
  (extractor) the download handler does nothing. Otherwise it builds one archive and,
  unless building fails, downloads it under the trimmed base name (or the default)
  followed by \<open>(1-count).zip\<close>, count being the number of processed items. The entry
  names are distinct: they are the display names and, for a display name with a folder
  part, the folders above it. The entry of a display name is a file holding the data of
  the last item of that name, and every other entry is a folder. When the display names
  are pairwise distinct and none has a folder part, the entries are exactly the
  processed items, in order.
\<close>

theorem archive_contents:
  "(let pf = filter (\<lambda>f. processedBlob f \<noteq> None) (files st)
    in (pf = [] \<longrightarrow> handleDownload e st = [])
     \<and> (pf \<noteq> [] \<longrightarrow> handleDownload e st =
          (case generateAsync e (zipEntries pf) of
             None \<Rightarrow> [ConsoleErrorDownload]
           | Some zipBlob \<Rightarrow>
               [Download ((if trim (newName st) \<noteq> [] then trim (newName st) else ''resized-images'')
                            @ ''(1-'' @ toString (length pf) @ '').zip'') zipBlob]))
     \<and> distinct (map fst (zipEntries pf))
     \<and> fst ` set (zipEntries pf)
         = displayName ` set pf \<union> (\<Union>f \<in> set pf. set (folders (displayName f)))
     \<and> map_of (zipEntries pf) =
         (\<lambda>n. case map_of (rev (map entryOf pf)) n of
                Some d \<Rightarrow> Some d
              | None \<Rightarrow> if n \<in> (\<Union>f \<in> set pf. set (folders (displayName f))) then Some Folder
                        else None)
     \<and> (distinct (map displayName pf) \<and> (\<forall>f \<in> set pf. parentFolder (displayName f) = [])
          \<longrightarrow> zipEntries pf = map entryOf pf))
   \<and> (let fr = extractedFrames stV
    in (fr = [] \<longrightarrow> handleDownloadV e stV = [])
     \<and> (fr \<noteq> [] \<longrightarrow> handleDownloadV e stV =
          (case generateAsync e (zipEntriesV fr) of
             None \<Rightarrow> [ConsoleErrorDownload]
           | Some zipBlob \<Rightarrow>
               [Download ((if trim (newNameV stV) \<noteq> [] then trim (newNameV stV) else ''extracted-frames'')
                            @ ''(1-'' @ toString (length fr) @ '').zip'') zipBlob]))
     \<and> distinct (map fst (zipEntriesV fr))
     \<and> fst ` set (zipEntriesV fr)
         = displayNameF ` set fr \<union> (\<Union>f \<in> set fr. set (folders (displayNameF f)))
     \<and> map_of (zipEntriesV fr) =
         (\<lambda>n. case map_of (rev (map entryOfV fr)) n of
                Some d \<Rightarrow> Some d
              | None \<Rightarrow> if n \<in> (\<Union>f \<in> set fr. set (folders (displayNameF f))) then Some Folder
                        else None)
     \<and> (distinct (map displayNameF fr) \<and> (\<forall>f \<in> set fr. parentFolder (displayNameF f) = [])
          \<longrightarrow> zipEntriesV fr = map entryOfV fr))"
proof -
  define pf where "pf = filter (\<lambda>f. processedBlob f \<noteq> None) (files st)"
  have 1: "handleDownload e st = []" if "pf = []"
    using that unfolding pf_def by (simp add: handleDownload_def Let_def)
  have 2: "handleDownload e st =
          (case generateAsync e (zipEntries pf) of
             None \<Rightarrow> [ConsoleErrorDownload]
           | Some zipBlob \<Rightarrow>
               [Download ((if trim (newName st) \<noteq> [] then trim (newName st) else ''resized-images'')
                            @ ''(1-'' @ toString (length pf) @ '').zip'') zipBlob])"
    if "pf \<noteq> []"
    using that unfolding pf_def by (simp add: handleDownload_def Let_def split: option.splits)
  have 3: "handleDownloadV e stV = []" if "extractedFrames stV = []"
    using that by (simp add: handleDownloadV_def)
  have 4: "handleDownloadV e stV =
          (case generateAsync e (zipEntriesV (extractedFrames stV)) of
             None \<Rightarrow> [ConsoleErrorDownload]
           | Some zipBlob \<Rightarrow>
               [Download ((if trim (newNameV stV) \<noteq> [] then trim (newNameV stV) else ''extracted-frames'')
                            @ ''(1-'' @ toString (length (extractedFrames stV)) @ '').zip'') zipBlob])"
    if "extractedFrames stV \<noteq> []"
    using that by (simp add: handleDownloadV_def Let_def split: option.splits)
  show ?thesis
    unfolding Let_def pf_def [symmetric]
    by (intro conjI impI 1 2 3 4 zipEntries_props zipEntriesV_props) simp_all
qed

lemma stD'_eq:
  "stD' = \<lparr>files = [photo, photo], newName = [], resolution = 720, outputFormat = jpeg,
            compression = True, isProcessing = False\<rparr>"
proof -
  have ne: "files stD \<noteq> []" by (simp add: stD_def)
  have cfg: "resolution stD = 720" "outputFormat stD = jpeg" "compression stD" "newName stD = []"
    "files stD = [newItem file0 1920 1080, newItem file0 1920 1080]"
    by (simp_all add: stD_def defaultResizerState_def)
  have "replace_ext ''photo.png'' = ''photo''" by simp
  then have item: "processItem env0 stD i (newItem file0 1920 1080) = photo" for i
    by (simp add: processItem_def cfg newItem_def resizeImage_file0 processedFile_def Let_def
          trim_empty newExtension_def r0_def photo_def)
       (simp add: file0_def)
  show ?thesis
    unfolding stD'_def handleProcess_final [OF ne]
    by (simp add: cfg processFrom_def item)
qed

lemma toString_2: "toString (Suc (Suc 0)) = ''2''"
  by (simp add: toString.simps digit_char_def)

lemma parentFolder_plain:
  "parentFolder ''photo.jpg'' = []" "parentFolder ''tall.jpg'' = []"
  "parentFolder ''frame-1.jpg'' = []" "parentFolder ''frame-2.jpg'' = []"
  by (simp_all add: parentFolder_def lastIndexOf_def)

text \<open>
  Two processed items with the same display name give an archive with one entry,
  named for two: claim C6 does not hold as it is stated.
\<close>

theorem archive_collision_counterexample:
  "filter (\<lambda>f. processedBlob f \<noteq> None) (files stD') = [photo, photo]
   \<and> displayName photo = ''photo.jpg''
   \<and> zipEntries [photo, photo] = [(''photo.jpg'', FileData [1, 2, 3])]
   \<and> handleDownload env0 stD' = [Download ''resized-images(1-2).zip'' [1, 2, 3]]"
proof -
  have p: "processedBlob photo = Some [1, 2, 3]" "displayName photo = ''photo.jpg''"
    by (simp_all add: photo_def)
  have z: "zipEntries [photo, photo] = [(''photo.jpg'', FileData [1, 2, 3])]"
    by (simp add: zipEntries_def p zip_file_plain parentFolder_plain)
  show ?thesis
    by (simp add: stD'_eq p z handleDownload_def Let_def env0_def trim_empty toString_2)
qed

text \<open>
  A base name with a slash puts the item into a folder of the archive, which gets an
  entry of its own: one processed item, two entries.
\<close>

lemma archive_folder_entry:
  "map displayName (files stF') = [''a/b-1.jpg'']
   \<and> zipEntries (filter (\<lambda>f. processedBlob f \<noteq> None) (files stF'))
       = [(''a/'', Folder), (''a/b-1.jpg'', FileData [1, 2, 3])]
   \<and> handleDownload env0 stF' = [Download ''a/b(1-1).zip'' [1, 2, 3]]"
proof -
  have ne: "files stF \<noteq> []" by (simp add: stF_def)
  have t: "trim ''a/b'' = ''a/b''" by (simp add: trim_def isWhiteSpace_def)
  have cfg: "resolution stF = 720" "outputFormat stF = jpeg" "compression stF"
    "trim (newName stF) = ''a/b''" "files stF = [newItem file0 1920 1080]"
    by (simp_all add: stF_def defaultResizerState_def t)
  let ?f = "(newItem file0 1920 1080)\<lparr>processedBlob := Some [1, 2, 3],
              processedWidth := Some 1280, processedHeight := Some 720,
              processedSize := Some 3, displayName := ''a/b-1.jpg''\<rparr>"
  have item: "processItem env0 stF 0 (newItem file0 1920 1080) = ?f"
    by (simp add: processItem_def cfg newItem_def resizeImage_file0 processedFile_def Let_def
          newExtension_def r0_def toString_1)
  have F: "stF' = \<lparr>files = [?f], newName = ''a/b'', resolution = 720, outputFormat = jpeg,
                     compression = True, isProcessing = False\<rparr>"
    unfolding stF'_def handleProcess_final [OF ne]
    by (simp add: cfg processFrom_def item) (simp add: stF_def defaultResizerState_def)
  have par: "parentFolder ''a/b-1.jpg'' = ''a''" "parentFolder ''a/'' = []"
    "forceTrailingSlash ''a'' = ''a/''" "forceTrailingSlash ''a/'' = ''a/''"
    by (simp_all add: parentFolder_def lastIndexOf_def forceTrailingSlash_def)
  have z: "zip_file ''a/b-1.jpg'' (Some d) [] = [(''a/'', Folder), (''a/b-1.jpg'', FileData d)]" for d
    by (simp add: zip_file_def fileAdd.simps [of "''a/b-1.jpg''"] fileAdd.simps [of "''a/''"]
          folderAdd.simps [of "''a''"] Let_def par)
  have pf: "filter (\<lambda>f. processedBlob f \<noteq> None) (files stF') = [?f]"
    by (simp add: F newItem_def)
  have ze: "zipEntries [?f] = [(''a/'', Folder), (''a/b-1.jpg'', FileData [1, 2, 3])]"
    by (simp add: zipEntries_def newItem_def z)
  have d: "handleDownload env0 stF' = [Download ''a/b(1-1).zip'' [1, 2, 3]]"
    unfolding handleDownload_def Let_def pf ze
    by (simp add: F t env0_def toString_1)
  have n: "map displayName (files stF') = [''a/b-1.jpg'']"
    by (simp add: F newItem_def)
  show ?thesis unfolding pf ze by (intro conjI n d refl)
qed

theorem archive_contents_witness:
  "filter (\<lambda>f. processedBlob f \<noteq> None) (files stA) = []
   \<and> handleDownload env0 stA = []
   \<and> filter (\<lambda>f. processedBlob f \<noteq> None) (files stC) \<noteq> []
   \<and> distinct (map displayName (filter (\<lambda>f. processedBlob f \<noteq> None) (files stC)))
   \<and> map (\<lambda>f. parentFolder (displayName f))
         (filter (\<lambda>f. processedBlob f \<noteq> None) (files stC)) = [[]]
   \<and> zipEntries (filter (\<lambda>f. processedBlob f \<noteq> None) (files stC))
       = [(''tall.jpg'', FileData [1, 2, 3])]
   \<and> handleDownload env0 stC = [Download ''resized-images(1-1).zip'' [1, 2, 3]]
   \<and> extractedFrames stV0 = [] \<and> handleDownloadV env0 stV0 = []
   \<and> extractedFrames stVF \<noteq> []
   \<and> distinct (map displayNameF (extractedFrames stVF))
   \<and> map (\<lambda>f. parentFolder (displayNameF f)) (extractedFrames stVF) = [[], []]
   \<and> zipEntriesV (extractedFrames stVF)
       = [(''frame-1.jpg'', FileData [1, 2, 3]), (''frame-2.jpg'', FileData [1, 2, 3])]"
proof -
  have a: "filter (\<lambda>f. processedBlob f \<noteq> None) (files stA) = []"
    by (simp add: stA_def newItem_def)
  have c: "filter (\<lambda>f. processedBlob f \<noteq> None) (files stC) \<noteq> []"
    "distinct (map displayName (filter (\<lambda>f. processedBlob f \<noteq> None) (files stC)))"
    "map entryOf (filter (\<lambda>f. processedBlob f \<noteq> None) (files stC)) = [(''tall.jpg'', FileData [1, 2, 3])]"
    "trim (newName stC) = []"
    "length (filter (\<lambda>f. processedBlob f \<noteq> None) (files stC)) = Suc 0"
    "\<forall>f \<in> set (filter (\<lambda>f. processedBlob f \<noteq> None) (files stC)). parentFolder (displayName f) = []"
    by (simp_all add: stC_eq entryOf_def stored_def trim_empty parentFolder_plain)
  have v: "extractedFrames stV0 = []" "extractedFrames stVF \<noteq> []"
    "distinct (map displayNameF (extractedFrames stVF))"
    "map entryOfV (extractedFrames stVF) = [(''frame-1.jpg'', FileData [1, 2, 3]), (''frame-2.jpg'', FileData [1, 2, 3])]"
    "\<forall>f \<in> set (extractedFrames stVF). parentFolder (displayNameF f) = []"
    by (simp_all add: stV0_def stVF_def defaultExtractorState_def newFrame_def Let_def trim_empty
          toString_1 toString_2 newExtension_def entryOfV_def stored_def r0_def parentFolder_plain)
  note A = archive_contents [of stA env0 stV0, unfolded Let_def]
  have 1: "handleDownload env0 stA = []" "handleDownloadV env0 stV0 = []"
    using A [THEN conjunct1, THEN conjunct1] A [THEN conjunct2, THEN conjunct1] a v(1)
    by simp_all
  note C = archive_contents [of stC env0 stVF, unfolded Let_def]
  have 2: "zipEntries (filter (\<lambda>f. processedBlob f \<noteq> None) (files stC))
             = map entryOf (filter (\<lambda>f. processedBlob f \<noteq> None) (files stC))"
    "zipEntriesV (extractedFrames stVF) = map entryOfV (extractedFrames stVF)"
    "handleDownload env0 stC =
          (case generateAsync env0 (zipEntries (filter (\<lambda>f. processedBlob f \<noteq> None) (files stC))) of
             None \<Rightarrow> [ConsoleErrorDownload]
           | Some zipBlob \<Rightarrow>
               [Download ((if trim (newName stC) \<noteq> [] then trim (newName stC) else ''resized-images'')
                            @ ''(1-'' @ toString (length (filter (\<lambda>f. processedBlob f \<noteq> None) (files stC))) @ '').zip'') zipBlob])"
    using C [THEN conjunct1, THEN conjunct2, THEN conjunct2, THEN conjunct2, THEN conjunct2,
               THEN conjunct2] c(2) c(6)
          C [THEN conjunct2, THEN conjunct2, THEN conjunct2, THEN conjunct2, THEN conjunct2,
               THEN conjunct2] v(3) v(5)
          C [THEN conjunct1, THEN conjunct2, THEN conjunct1] c(1)
    by simp_all
  have 3: "handleDownload env0 stC = [Download ''resized-images(1-1).zip'' [1, 2, 3]]"
    unfolding 2(3) 2(1) c(3) c(4) c(5) by (simp add: env0_def toString_1)
  have 4: "map (\<lambda>f. parentFolder (displayName f))
         (filter (\<lambda>f. processedBlob f \<noteq> None) (files stC)) = [[]]"
    "map (\<lambda>f. parentFolder (displayNameF f)) (extractedFrames stVF) = [[], []]"
    by (simp_all add: stC_eq stV0_def stVF_def defaultExtractorState_def newFrame_def Let_def
          trim_empty toString_1 toString_2 newExtension_def r0_def parentFolder_plain)
  from a c(1-5) v(1-4) 1 2 3 4 show ?thesis by simp
qed

end
